theory Spec2Isabelle
  imports Complex_Main "HOL-Library.Word" "HOL-Library.Code_Target_Numeral"
begin

unbundle bit_operations_syntax

section \<open>JavaScript values\<close>

text \<open>
  The module \<^verbatim>\<open>src/lib/transport/ble/gatt-utils.js\<close> works on JavaScript strings,
  numbers, booleans and Node.js Buffers. A string is a sequence of UTF-16 code units, a
  Buffer a sequence of bytes. A number is an IEEE-754 double: the model keeps a finite
  number as the rational it denotes (every double is a rational; the model does not round
  to 53 bits, so it has more numbers than JavaScript has), and has negative zero, the two
  infinities and NaN beside it.
\<close>

type_synonym code_unit = "16 word"
type_synonym js_string = "code_unit list"
type_synonym byte = "8 word"
type_synonym buffer = "byte list"

datatype js_number = Finite rat | NegZero | PosInf | NegInf | NaN

datatype js_value =
    JUndefined
  | JNull
  | JBool bool
  | JNumber js_number
  | JString js_string
  | JBuffer buffer

text \<open>A string literal of the source, written with ASCII characters.\<close>

definition ascii :: "string \<Rightarrow> js_string" where
  "ascii s = map of_char s"

text \<open>ToBoolean, as \<^verbatim>\<open>if (x)\<close>, \<^verbatim>\<open>x ? a : b\<close> and \<^verbatim>\<open>x || y\<close> apply it.\<close>

fun truthy :: "js_value \<Rightarrow> bool" where
  "truthy JUndefined = False"
| "truthy JNull = False"
| "truthy (JBool b) = b"
| "truthy (JNumber (Finite r)) = (r \<noteq> 0)"
| "truthy (JNumber NegZero) = False"
| "truthy (JNumber PosInf) = True"
| "truthy (JNumber NegInf) = True"
| "truthy (JNumber NaN) = False"
| "truthy (JString s) = (s \<noteq> [])"
| "truthy (JBuffer b) = True"

section \<open>UUID conversion\<close>

text \<open>
  \<^verbatim>\<open>String.prototype.toLowerCase\<close> and \<^verbatim>\<open>toUpperCase\<close> are the platform's, with the
  whole Unicode case mapping behind them (\<^verbatim>\<open>toUpperCase\<close> can change a string's length).
  The two functions of the module take them as a parameter; \<open>ascii_toLowerCase\<close> and
  \<open>ascii_toUpperCase\<close> are what they do on strings of ASCII characters, and
  \<open>js_toLowerCase\<close> below is the platform's function over Unicode's table.
\<close>

definition dash :: code_unit where
  "dash = 0x2D"

definition ascii_lower :: "code_unit \<Rightarrow> code_unit" where
  "ascii_lower c = (if 0x41 \<le> c \<and> c \<le> 0x5A then c + 0x20 else c)"

definition ascii_upper :: "code_unit \<Rightarrow> code_unit" where
  "ascii_upper c = (if 0x61 \<le> c \<and> c \<le> 0x7A then c - 0x20 else c)"

definition ascii_toLowerCase :: "js_string \<Rightarrow> js_string" where
  "ascii_toLowerCase s = map ascii_lower s"

definition ascii_toUpperCase :: "js_string \<Rightarrow> js_string" where
  "ascii_toUpperCase s = map ascii_upper s"

text \<open>\<^verbatim>\<open>uuid.toLowerCase().replace(/-/g, '')\<close>: every dash is removed.\<close>

definition uuidToNobleUuid :: "(js_string \<Rightarrow> js_string) \<Rightarrow> js_string \<Rightarrow> js_string" where
  "uuidToNobleUuid toLowerCase uuid = filter (\<lambda>c. c \<noteq> dash) (toLowerCase uuid)"

text \<open>
  \<^verbatim>\<open>s.substring(a, b)\<close> for indices that are natural numbers: both are clamped to the
  length and swapped when \<open>a > b\<close>.
\<close>

definition substring :: "js_string \<Rightarrow> nat \<Rightarrow> nat \<Rightarrow> js_string" where
  "substring s a b =
     (let a' = min a (length s); b' = min b (length s);
          lo = min a' b'; hi = max a' b'
      in take (hi - lo) (drop lo s))"

text \<open>\<^verbatim>\<open>parts.join(sep)\<close>.\<close>

fun join :: "js_string \<Rightarrow> js_string list \<Rightarrow> js_string" where
  "join sep [] = []"
| "join sep [p] = p"
| "join sep (p # q # ps) = p @ sep @ join sep (q # ps)"

definition nobleUuidToUuid :: "(js_string \<Rightarrow> js_string) \<Rightarrow> js_string \<Rightarrow> js_string" where
  "nobleUuidToUuid toUpperCase uuid0 =
     (let uuid = toUpperCase uuid0 in
      if length uuid \<noteq> 32 then uuid
      else
        let parts = [
              substring uuid 0 8,
              substring uuid 8 12,
              substring uuid 12 16,
              substring uuid 16 20,
              substring uuid 20 32]
        in join (ascii ''-'') parts)"

section \<open>The watcher\<close>

text \<open>
  \<^verbatim>\<open>addWatcher\<close> allocates a closure: the variable \<^verbatim>\<open>rejected\<close> and the function
  \<^verbatim>\<open>fn\<close> that sets it and calls \<^verbatim>\<open>rejectFn\<close>. The model names each activation of
  \<^verbatim>\<open>addWatcher\<close> by a number and keeps, for one peripheral and one event loop:
  \<^item> \<open>rejected\<close>: the closure variable of each activation;
  \<^item> \<open>listeners\<close>: the peripheral's listeners of \<^verbatim>\<open>'disconnect'\<close>, in the order they were
    registered. Each is the \<^verbatim>\<open>fn\<close> of an activation, registered with \<^verbatim>\<open>once\<close>;
  \<^item> \<open>timers\<close>: the timers that are pending, each with the activation whose callback it
    runs and its delay;
  \<^item> \<open>calls\<close>: the calls of \<^verbatim>\<open>rejectFn\<close> so far, each with the activation it was passed
    to and the reason it was called with. What \<^verbatim>\<open>rejectFn\<close> does is the caller's.
\<close>

record world =
  rejected :: "nat \<Rightarrow> bool"
  listeners :: "nat list"
  timers :: "(nat \<times> js_value) list"
  calls :: "(nat \<times> js_value) list"
  next_id :: nat

text \<open>
  The object \<^verbatim>\<open>addWatcher\<close> returns. Its field \<^verbatim>\<open>rejected\<close> is initialised with the
  value the variable \<^verbatim>\<open>rejected\<close> has then (a boolean is copied, not shared); \<^verbatim>\<open>fn\<close> is
  the closure; \<^verbatim>\<open>timeout\<close> is \<^verbatim>\<open>null\<close> or the timer.
\<close>

record watcher =
  w_rejected :: bool
  w_fn :: nat
  w_timeout :: "nat option"

definition init_world :: world where
  "init_world = \<lparr>rejected = (\<lambda>_. False), listeners = [], timers = [], calls = [], next_id = 0\<rparr>"

text \<open>The closure \<^verbatim>\<open>fn\<close> of activation \<open>i\<close>, called with \<open>reason\<close>.\<close>

definition fn :: "nat \<Rightarrow> js_value \<Rightarrow> world \<Rightarrow> world" where
  "fn i reason0 w =
     (let reason = (if truthy reason0 then reason0 else JString (ascii ''Disconnected''))
      in w\<lparr>rejected := (rejected w)(i := True),
            calls := calls w @ [(i, reason)]\<rparr>)"

text \<open>The callback \<^verbatim>\<open>addWatcher\<close> passes to \<^verbatim>\<open>setTimeout\<close>.\<close>

definition timer_callback :: "nat \<Rightarrow> world \<Rightarrow> world" where
  "timer_callback i w = (if rejected w i then w else fn i (JString (ascii ''Timeout'')) w)"

text \<open>
  \<^verbatim>\<open>addWatcher(peripheral, rejectFn, timeout = 3000)\<close>. The default stands in when the
  argument is omitted or \<^verbatim>\<open>undefined\<close>.
\<close>

definition addWatcher :: "world \<Rightarrow> js_value \<Rightarrow> watcher \<times> world" where
  "addWatcher w timeout0 =
     (let timeout = (if timeout0 = JUndefined then JNumber (Finite 3000) else timeout0);
          i = next_id w;
          w1 = w\<lparr>next_id := Suc i, rejected := (rejected w)(i := False)\<rparr>;
          w2 = w1\<lparr>listeners := listeners w1 @ [i]\<rparr>;
          watcher = \<lparr>w_rejected = rejected w2 i, w_fn = i, w_timeout = None\<rparr>
      in if truthy timeout
         then (watcher\<lparr>w_timeout := Some i\<rparr>, w2\<lparr>timers := timers w2 @ [(i, timeout)]\<rparr>)
         else (watcher, w2))"

text \<open>\<^verbatim>\<open>clearTimeout(t)\<close>: the timer is no longer pending.\<close>

definition clearTimeout :: "nat \<Rightarrow> world \<Rightarrow> world" where
  "clearTimeout t w = w\<lparr>timers := filter (\<lambda>p. fst p \<noteq> t) (timers w)\<rparr>"

text \<open>
  \<^verbatim>\<open>emitter.removeListener(name, f)\<close> removes the instance of \<open>f\<close> that was registered
  last, a listener registered with \<^verbatim>\<open>once\<close> included.
\<close>

definition removeListener :: "nat \<Rightarrow> world \<Rightarrow> world" where
  "removeListener f w = w\<lparr>listeners := rev (remove1 f (rev (listeners w)))\<rparr>"

definition removeWatcher :: "world \<Rightarrow> watcher \<Rightarrow> world" where
  "removeWatcher w watcher =
     (let w1 = (case w_timeout watcher of
                  Some t \<Rightarrow> clearTimeout t w
                | None \<Rightarrow> w)
      in removeListener (w_fn watcher) w1)"

text \<open>
  What the event loop delivers. \<^verbatim>\<open>peripheral.emit('disconnect', reason)\<close> takes every
  listener off the peripheral, since each was registered with \<^verbatim>\<open>once\<close>, and calls them
  in order. A timer that expires is no longer pending and its callback runs; a timer that
  is not pending does not expire.
\<close>

definition emit_disconnect :: "js_value \<Rightarrow> world \<Rightarrow> world" where
  "emit_disconnect reason w =
     foldl (\<lambda>w' i. fn i reason w') (w\<lparr>listeners := []\<rparr>) (listeners w)"

definition expire :: "nat \<Rightarrow> world \<Rightarrow> world" where
  "expire t w =
     (if t \<in> fst ` set (timers w) then timer_callback t (clearTimeout t w) else w)"

datatype action =
    Add js_value
  | Remove watcher
  | Disconnect js_value
  | Expire nat

fun step :: "world \<Rightarrow> action \<Rightarrow> world" where
  "step w (Add timeout) = snd (addWatcher w timeout)"
| "step w (Remove h) = removeWatcher w h"
| "step w (Disconnect reason) = emit_disconnect reason w"
| "step w (Expire t) = expire t w"

definition run :: "action list \<Rightarrow> world \<Rightarrow> world" where
  "run acts w = foldl step w acts"

text \<open>The reasons \<^verbatim>\<open>rejectFn\<close> of activation \<open>i\<close> was called with, in order.\<close>

definition fired :: "nat \<Rightarrow> world \<Rightarrow> js_value list" where
  "fired i w = map snd (filter (\<lambda>p. fst p = i) (calls w))"

text \<open>
  The worlds the module can reach: an activation still to come has no listener, no timer
  and no call, and a closure is registered once.
\<close>

definition wf_world :: "world \<Rightarrow> bool" where
  "wf_world w =
     (distinct (listeners w)
      \<and> list_all (\<lambda>i. i < next_id w) (listeners w)
      \<and> list_all (\<lambda>p. fst p < next_id w) (timers w)
      \<and> list_all (\<lambda>p. fst p < next_id w) (calls w))"

fun is_disconnect :: "action \<Rightarrow> bool" where
  "is_disconnect (Disconnect reason) = True"
| "is_disconnect a = False"

text \<open>
  An activation is quiet when nothing can call its \<^verbatim>\<open>fn\<close> any more: it has no listener
  on the peripheral and no pending timer.
\<close>

definition quiet :: "nat \<Rightarrow> world \<Rightarrow> bool" where
  "quiet i w = (i \<notin> set (listeners w) \<and> i \<notin> fst ` set (timers w) \<and> i < next_id w)"

text \<open>
  An activation is spent when its \<^verbatim>\<open>fn\<close> has run and the peripheral no longer holds it:
  \<^verbatim>\<open>rejected\<close> is set, so the timer's callback does nothing.
\<close>

definition spent :: "nat \<Rightarrow> world \<Rightarrow> bool" where
  "spent i w = (i \<notin> set (listeners w) \<and> i < next_id w \<and> rejected w i)"

section \<open>The value codec\<close>

text \<open>
  \<^verbatim>\<open>bufferToValue\<close> and \<^verbatim>\<open>valueToBuffer\<close> are a \<^verbatim>\<open>switch\<close> over the format with one
  call of the platform in each case. What the platform does is modelled below, as Node.js
  10 and later do it: a Buffer read or write out of range throws a \<^verbatim>\<open>RangeError\<close>,
  \<^verbatim>\<open>Buffer.from\<close> of a value that is no string and no Buffer throws a \<^verbatim>\<open>TypeError\<close>.
  The third error is the module's own.
\<close>

datatype error = UnknownFormat js_string | RangeError | TypeError

subsection \<open>Strings and bytes: UTF-16, UTF-8, base64\<close>

text \<open>
  The code points of a string. A surrogate that has no partner is read as U+FFFD, as
  \<^verbatim>\<open>Buffer.from(string)\<close> does.
\<close>

definition high_surrogate :: "nat \<Rightarrow> bool" where
  "high_surrogate c = (0xD800 \<le> c \<and> c < 0xDC00)"

definition low_surrogate :: "nat \<Rightarrow> bool" where
  "low_surrogate c = (0xDC00 \<le> c \<and> c < 0xE000)"

fun utf16_dec :: "nat list \<Rightarrow> nat list" where
  "utf16_dec [] = []"
| "utf16_dec [c] = (if high_surrogate c \<or> low_surrogate c then [0xFFFD] else [c])"
| "utf16_dec (c # d # us) =
     (if high_surrogate c then
        (if low_surrogate d
         then (0x10000 + (c - 0xD800) * 1024 + (d - 0xDC00)) # utf16_dec us
         else 0xFFFD # utf16_dec (d # us))
      else if low_surrogate c then 0xFFFD # utf16_dec (d # us)
      else c # utf16_dec (d # us))"

definition utf16_enc_cp :: "nat \<Rightarrow> nat list" where
  "utf16_enc_cp c =
     (if c < 0x10000 then [c]
      else [0xD800 + (c - 0x10000) div 1024, 0xDC00 + (c - 0x10000) mod 1024])"

definition utf8_enc_cp :: "nat \<Rightarrow> nat list" where
  "utf8_enc_cp c =
     (if c < 0x80 then [c]
      else if c < 0x800 then [0xC0 + c div 64, 0x80 + c mod 64]
      else if c < 0x10000 then [0xE0 + c div 4096, 0x80 + c div 64 mod 64, 0x80 + c mod 64]
      else [0xF0 + c div 262144, 0x80 + c div 4096 mod 64, 0x80 + c div 64 mod 64,
            0x80 + c mod 64])"

text \<open>
  The UTF-8 decoder: a byte sequence that is not well-formed yields U+FFFD for its longest
  prefix that could start a well-formed one, and decoding goes on after that prefix.
\<close>

definition continuation :: "nat \<Rightarrow> bool" where
  "continuation b = (0x80 \<le> b \<and> b \<le> 0xBF)"

text \<open>The second byte a lead byte allows: no overlong form, no surrogate, at most U+10FFFF.\<close>

definition second_ok :: "nat \<Rightarrow> nat \<Rightarrow> bool" where
  "second_ok b0 b1 =
     ((if b0 = 0xE0 then 0xA0 else if b0 = 0xF0 then 0x90 else 0x80) \<le> b1 \<and>
      b1 \<le> (if b0 = 0xED then 0x9F else if b0 = 0xF4 then 0x8F else 0xBF))"

fun utf8_dec :: "nat list \<Rightarrow> nat list" where
  "utf8_dec [] = []"
| "utf8_dec (b0 # bs) =
     (if b0 < 0x80 then b0 # utf8_dec bs
      else if 0xC2 \<le> b0 \<and> b0 \<le> 0xDF then
        (case bs of
           [] \<Rightarrow> [0xFFFD]
         | b1 # r1 \<Rightarrow>
             if continuation b1 then ((b0 - 0xC0) * 64 + (b1 - 0x80)) # utf8_dec r1
             else 0xFFFD # utf8_dec bs)
      else if 0xE0 \<le> b0 \<and> b0 \<le> 0xEF then
        (case bs of
           [] \<Rightarrow> [0xFFFD]
         | b1 # r1 \<Rightarrow>
             if second_ok b0 b1 then
               (case r1 of
                  [] \<Rightarrow> [0xFFFD]
                | b2 # r2 \<Rightarrow>
                    if continuation b2
                    then ((b0 - 0xE0) * 4096 + (b1 - 0x80) * 64 + (b2 - 0x80)) # utf8_dec r2
                    else 0xFFFD # utf8_dec r1)
             else 0xFFFD # utf8_dec bs)
      else if 0xF0 \<le> b0 \<and> b0 \<le> 0xF4 then
        (case bs of
           [] \<Rightarrow> [0xFFFD]
         | b1 # r1 \<Rightarrow>
             if second_ok b0 b1 then
               (case r1 of
                  [] \<Rightarrow> [0xFFFD]
                | b2 # r2 \<Rightarrow>
                    if continuation b2 then
                      (case r2 of
                         [] \<Rightarrow> [0xFFFD]
                       | b3 # r3 \<Rightarrow>
                           if continuation b3
                           then ((b0 - 0xF0) * 262144 + (b1 - 0x80) * 4096 +
                                 (b2 - 0x80) * 64 + (b3 - 0x80)) # utf8_dec r3
                           else 0xFFFD # utf8_dec r2)
                    else 0xFFFD # utf8_dec r1)
             else 0xFFFD # utf8_dec bs)
      else 0xFFFD # utf8_dec bs)"

text \<open>\<^verbatim>\<open>Buffer.from(string)\<close>, the UTF-8 bytes of a string, and \<^verbatim>\<open>buffer.toString()\<close>.\<close>

definition Buffer_from_utf8 :: "js_string \<Rightarrow> buffer" where
  "Buffer_from_utf8 s = map of_nat (concat (map utf8_enc_cp (utf16_dec (map unat s))))"

definition toString_utf8 :: "buffer \<Rightarrow> js_string" where
  "toString_utf8 b = map of_nat (concat (map utf16_enc_cp (utf8_dec (map unat b))))"

text \<open>
  Base64. \<^verbatim>\<open>buffer.toString('base64')\<close> writes the standard alphabet with padding.
  \<^verbatim>\<open>Buffer.from(string, 'base64')\<close> reads the low byte of each code unit, also reads
  the URL-safe alphabet, skips every byte that is in neither, and stops at the first
  \<^verbatim>\<open>=\<close>.
\<close>

definition base64_char :: "nat \<Rightarrow> nat" where
  "base64_char i =
     (if i < 26 then 0x41 + i
      else if i < 52 then 0x61 + (i - 26)
      else if i < 62 then 0x30 + (i - 52)
      else if i = 62 then 0x2B
      else 0x2F)"

definition unbase64 :: "nat \<Rightarrow> nat option" where
  "unbase64 c =
     (if 0x41 \<le> c \<and> c \<le> 0x5A then Some (c - 0x41)
      else if 0x61 \<le> c \<and> c \<le> 0x7A then Some (c - 0x61 + 26)
      else if 0x30 \<le> c \<and> c \<le> 0x39 then Some (c - 0x30 + 52)
      else if c = 0x2B \<or> c = 0x2D then Some 62
      else if c = 0x2F \<or> c = 0x5F then Some 63
      else None)"

fun base64_enc :: "nat list \<Rightarrow> nat list" where
  "base64_enc [] = []"
| "base64_enc [a] = [base64_char (a div 4), base64_char (a mod 4 * 16), 0x3D, 0x3D]"
| "base64_enc [a, b] =
     [base64_char (a div 4), base64_char (a mod 4 * 16 + b div 16),
      base64_char (b mod 16 * 4), 0x3D]"
| "base64_enc (a # b # c # bs) =
     [base64_char (a div 4), base64_char (a mod 4 * 16 + b div 16),
      base64_char (b mod 16 * 4 + c div 64), base64_char (c mod 64)] @ base64_enc bs"

text \<open>The bytes of the sextets read so far: all of a group of four, or what a shorter tail holds.\<close>

fun base64_bytes :: "nat list \<Rightarrow> nat list" where
  "base64_bytes [s0, s1] = [s0 * 4 + s1 div 16]"
| "base64_bytes [s0, s1, s2] = [s0 * 4 + s1 div 16, s1 mod 16 * 16 + s2 div 4]"
| "base64_bytes [s0, s1, s2, s3] =
     [s0 * 4 + s1 div 16, s1 mod 16 * 16 + s2 div 4, s2 mod 4 * 64 + s3]"
| "base64_bytes ss = []"

fun base64_dec :: "nat list \<Rightarrow> nat list \<Rightarrow> nat list" where
  "base64_dec acc [] = base64_bytes acc"
| "base64_dec acc (c # cs) =
     (if c = 0x3D then base64_bytes acc
      else case unbase64 c of
        None \<Rightarrow> base64_dec acc cs
      | Some v \<Rightarrow>
          if length acc = 3 then base64_bytes (acc @ [v]) @ base64_dec [] cs
          else base64_dec (acc @ [v]) cs)"

definition Buffer_from_base64 :: "js_string \<Rightarrow> buffer" where
  "Buffer_from_base64 s = map of_nat (base64_dec [] (map (\<lambda>u. unat u mod 256) s))"

definition toString_base64 :: "buffer \<Rightarrow> js_string" where
  "toString_base64 b = map of_nat (base64_enc (map unat b))"

subsection \<open>Numbers\<close>

text \<open>
  The integer a number is truncated to, and ToInt32 and ToUint32 of it. NaN, the
  infinities and negative zero become \<open>0\<close>.
\<close>

definition js_truncate :: "rat \<Rightarrow> int" where
  "js_truncate r = (if 0 \<le> r then \<lfloor>r\<rfloor> else \<lceil>r\<rceil>)"

fun to_integer :: "js_number \<Rightarrow> int" where
  "to_integer (Finite r) = js_truncate r"
| "to_integer n = 0"

definition to_int32 :: "int \<Rightarrow> int" where
  "to_int32 x = (x + 2 ^ 31) mod 2 ^ 32 - 2 ^ 31"

definition ToInt32 :: "js_number \<Rightarrow> int" where
  "ToInt32 n = to_int32 (to_integer n)"

definition ToUint32 :: "js_number \<Rightarrow> int" where
  "ToUint32 n = to_integer n mod 2 ^ 32"

text \<open>
  ToNumber. What a string converts to (the grammar of numeric literals) is the
  platform's and a parameter here; a Buffer converts as its \<^verbatim>\<open>toString()\<close> does.
\<close>

fun ToNumber :: "(js_string \<Rightarrow> js_number) \<Rightarrow> js_value \<Rightarrow> js_number" where
  "ToNumber str2num JUndefined = NaN"
| "ToNumber str2num JNull = Finite 0"
| "ToNumber str2num (JBool b) = Finite (if b then 1 else 0)"
| "ToNumber str2num (JNumber n) = n"
| "ToNumber str2num (JString s) = str2num s"
| "ToNumber str2num (JBuffer b) = str2num (toString_utf8 b)"

text \<open>
  The operators \<^verbatim>\<open>a & b\<close>, \<^verbatim>\<open>a << b\<close> and \<^verbatim>\<open>a >> b\<close> on numbers: both operands go
  through ToInt32 (the shift count through ToUint32), only the low five bits of a shift
  count are used, and the result is a 32-bit signed integer.
\<close>

definition js_and :: "js_number \<Rightarrow> js_number \<Rightarrow> js_number" where
  "js_and a b = Finite (of_int (ToInt32 a AND ToInt32 b))"

definition js_shl :: "js_number \<Rightarrow> js_number \<Rightarrow> js_number" where
  "js_shl a b = Finite (of_int (to_int32 (ToInt32 a * 2 ^ nat (ToUint32 b mod 32))))"

definition js_sar :: "js_number \<Rightarrow> js_number \<Rightarrow> js_number" where
  "js_sar a b = Finite (of_int (ToInt32 a div 2 ^ nat (ToUint32 b mod 32)))"

subsection \<open>IEEE-754 single precision\<close>

text \<open>
  The number a single denotes: sign, eight bits of exponent, 23 bits of fraction. A
  single with exponent \<open>e\<close> between 1 and 254 and fraction \<open>m\<close> is
  \<open>(2^23 + m) * 2^(e - 150)\<close>, a subnormal one (exponent 0) is \<open>m * 2^(-149)\<close>.
\<close>

definition f32_value :: "32 word \<Rightarrow> js_number" where
  "f32_value w =
     (let n = unat w; s = n div 2 ^ 31; e = n div 2 ^ 23 mod 256; m = n mod 2 ^ 23 in
      if e = 255 then (if m \<noteq> 0 then NaN else if s = 1 then NegInf else PosInf)
      else if e = 0 \<and> m = 0 then (if s = 1 then NegZero else Finite 0)
      else
        let mag = of_nat ((if e = 0 then m else 2 ^ 23 + m) * 2 ^ max e 1) / 2 ^ 150
        in Finite (if s = 1 then - mag else mag))"

definition f32_finite :: "32 word \<Rightarrow> bool" where
  "f32_finite w = (unat w div 2 ^ 23 mod 256 \<noteq> 255)"

text \<open>
  The single nearest to a rational \<open>a \<ge> 0\<close>, ties to even, as exponent and fraction
  (bits 0 to 30). \<open>f32_exponent a 254\<close> is the exponent field of a normal number, and 1
  for a number below the normal range, which has the same unit in the last place.
\<close>

fun f32_exponent :: "rat \<Rightarrow> nat \<Rightarrow> nat" where
  "f32_exponent a 0 = 1"
| "f32_exponent a (Suc n) =
     (if n = 0 then 1
      else if 2 ^ Suc n \<le> a * 2 ^ 127 then Suc n
      else f32_exponent a n)"

definition round_half_even :: "rat \<Rightarrow> nat" where
  "round_half_even q =
     (let f = nat \<lfloor>q\<rfloor>; r = q - of_nat f in
      if r < 1 / 2 then f
      else if 1 / 2 < r then f + 1
      else if even f then f else f + 1)"

definition f32_magnitude :: "rat \<Rightarrow> nat" where
  "f32_magnitude a =
     (let e = f32_exponent a 254;
          m = round_half_even (a * 2 ^ 150 / 2 ^ e);
          bits = (e - 1) * 2 ^ 23 + m
      in if 255 * 2 ^ 23 \<le> bits then 255 * 2 ^ 23 else bits)"

fun f32_bits :: "js_number \<Rightarrow> 32 word" where
  "f32_bits NaN = 0x7FC00000"
| "f32_bits PosInf = 0x7F800000"
| "f32_bits NegInf = 0xFF800000"
| "f32_bits NegZero = 0x80000000"
| "f32_bits (Finite r) =
     (if r < 0 then of_nat (2 ^ 31 + f32_magnitude (- r)) else of_nat (f32_magnitude r))"

subsection \<open>Buffer reads and writes\<close>

fun le_bytes :: "nat \<Rightarrow> int \<Rightarrow> buffer" where
  "le_bytes 0 x = []"
| "le_bytes (Suc n) x = word_of_int x # le_bytes n (x div 256)"

fun le_nat :: "buffer \<Rightarrow> nat" where
  "le_nat [] = 0"
| "le_nat (b # bs) = unat b + 256 * le_nat bs"

text \<open>
  A read of \<open>len\<close> bytes at \<open>offset\<close>: the platform throws when the first or the last of
  them is not in the buffer.
\<close>

definition read_le :: "nat \<Rightarrow> buffer \<Rightarrow> nat \<Rightarrow> error + nat" where
  "read_le len buf offset =
     (if length buf < offset + len then Inl RangeError
      else Inr (le_nat (take len (drop offset buf))))"

definition readUInt8 :: "buffer \<Rightarrow> nat \<Rightarrow> error + js_number" where
  "readUInt8 buf offset = map_sum id (\<lambda>n. Finite (of_nat n)) (read_le 1 buf offset)"

definition readUInt16LE :: "buffer \<Rightarrow> nat \<Rightarrow> error + js_number" where
  "readUInt16LE buf offset = map_sum id (\<lambda>n. Finite (of_nat n)) (read_le 2 buf offset)"

definition readUInt32LE :: "buffer \<Rightarrow> nat \<Rightarrow> error + js_number" where
  "readUInt32LE buf offset = map_sum id (\<lambda>n. Finite (of_nat n)) (read_le 4 buf offset)"

definition readInt32LE :: "buffer \<Rightarrow> nat \<Rightarrow> error + js_number" where
  "readInt32LE buf offset =
     map_sum id (\<lambda>n. Finite (of_int (to_int32 (int n)))) (read_le 4 buf offset)"

definition readFloatLE :: "buffer \<Rightarrow> nat \<Rightarrow> error + js_number" where
  "readFloatLE buf offset = map_sum id (\<lambda>n. f32_value (of_nat n)) (read_le 4 buf offset)"

text \<open>
  An integer write: the platform throws when the number is above the format's maximum or below its minimum
  (NaN is neither) and when the bytes do not fit the buffer, and stores the low bytes of
  the truncated number otherwise.
\<close>

fun out_of_range :: "js_number \<Rightarrow> int \<Rightarrow> int \<Rightarrow> bool" where
  "out_of_range (Finite r) lo hi = (of_int hi < r \<or> r < of_int lo)"
| "out_of_range PosInf lo hi = True"
| "out_of_range NegInf lo hi = True"
| "out_of_range NegZero lo hi = False"
| "out_of_range NaN lo hi = False"

definition store :: "buffer \<Rightarrow> nat \<Rightarrow> buffer \<Rightarrow> error + buffer" where
  "store buf offset bytes =
     (if length buf < offset + length bytes then Inl RangeError
      else Inr (take offset buf @ bytes @ drop (offset + length bytes) buf))"

definition write_le ::
  "nat \<Rightarrow> int \<Rightarrow> int \<Rightarrow> buffer \<Rightarrow> js_number \<Rightarrow> nat \<Rightarrow> error + buffer" where
  "write_le len lo hi buf value offset =
     (if out_of_range value lo hi then Inl RangeError
      else store buf offset (le_bytes len (to_integer value)))"

definition writeUInt16LE :: "buffer \<Rightarrow> js_number \<Rightarrow> nat \<Rightarrow> error + buffer" where
  "writeUInt16LE = write_le 2 0 0xFFFF"

definition writeUInt32LE :: "buffer \<Rightarrow> js_number \<Rightarrow> nat \<Rightarrow> error + buffer" where
  "writeUInt32LE = write_le 4 0 0xFFFFFFFF"

definition writeInt32LE :: "buffer \<Rightarrow> js_number \<Rightarrow> nat \<Rightarrow> error + buffer" where
  "writeInt32LE = write_le 4 (- 0x80000000) 0x7FFFFFFF"

definition writeFloatLE :: "buffer \<Rightarrow> js_number \<Rightarrow> nat \<Rightarrow> error + buffer" where
  "writeFloatLE buf value offset = store buf offset (le_bytes 4 (uint (f32_bits value)))"

definition Buffer_alloc :: "nat \<Rightarrow> buffer" where
  "Buffer_alloc n = replicate n 0"

text \<open>\<^verbatim>\<open>Buffer.from(value)\<close> with one argument.\<close>

fun Buffer_from :: "js_value \<Rightarrow> error + buffer" where
  "Buffer_from (JString s) = Inr (Buffer_from_utf8 s)"
| "Buffer_from (JBuffer b) = Inr b"
| "Buffer_from v = Inl TypeError"

subsection \<open>The two functions of the module\<close>

definition bufferToValue :: "buffer \<Rightarrow> js_string \<Rightarrow> error + js_value" where
  "bufferToValue buffer format =
     (if format = ascii ''bool'' then
        map_sum id (\<lambda>n. JBool (n \<noteq> Finite 0)) (readUInt8 buffer 0)
      else if format = ascii ''uint8'' then
        map_sum id JNumber (readUInt8 buffer 0)
      else if format = ascii ''uint16'' then
        map_sum id JNumber (readUInt16LE buffer 0)
      else if format = ascii ''uint32'' then
        map_sum id JNumber (readUInt32LE buffer 0)
      else if format = ascii ''uint64'' then
        (case readUInt32LE buffer 0 of
           Inl e \<Rightarrow> Inl e
         | Inr lo \<Rightarrow>
             if truthy (JNumber lo) then Inr (JNumber lo)
             else map_sum id (\<lambda>hi. JNumber (js_shl hi (Finite 32))) (readUInt32LE buffer 4))
      else if format = ascii ''int'' then
        map_sum id JNumber (readInt32LE buffer 0)
      else if format = ascii ''float'' then
        map_sum id JNumber (readFloatLE buffer 0)
      else if format = ascii ''string'' then
        Inr (JString (toString_utf8 buffer))
      else if format = ascii ''data'' then
        Inr (JString (toString_base64 buffer))
      else Inl (UnknownFormat format))"

definition valueToBuffer ::
  "(js_string \<Rightarrow> js_number) \<Rightarrow> js_value \<Rightarrow> js_string \<Rightarrow> error + js_value" where
  "valueToBuffer str2num value format =
     (if format = ascii ''bool'' then
        Inr (JBuffer [if truthy value then 1 else 0])
      else if format = ascii ''uint8'' then
        Inr (JBuffer [word_of_int (to_integer (js_and (ToNumber str2num value) (Finite 0xFF)))])
      else if format = ascii ''uint16'' then
        map_sum id JBuffer (writeUInt16LE (Buffer_alloc 2) (ToNumber str2num value) 0)
      else if format = ascii ''uint32'' then
        map_sum id JBuffer (writeUInt32LE (Buffer_alloc 4) (ToNumber str2num value) 0)
      else if format = ascii ''uint64'' then
        (case writeUInt32LE (Buffer_alloc 8)
                (js_and (ToNumber str2num value) (Finite 0xFFFFFFFF)) 0 of
           Inl e \<Rightarrow> Inl e
         | Inr b \<Rightarrow>
             map_sum id JBuffer
               (writeUInt32LE b (js_sar (ToNumber str2num value) (Finite 32)) 4))
      else if format = ascii ''int'' then
        map_sum id JBuffer (writeInt32LE (Buffer_alloc 4) (ToNumber str2num value) 0)
      else if format = ascii ''float'' then
        map_sum id JBuffer (writeFloatLE (Buffer_alloc 4) (ToNumber str2num value) 0)
      else if format = ascii ''string'' then
        map_sum id JBuffer (Buffer_from value)
      else if format = ascii ''data'' then
        (case value of
           JString s \<Rightarrow> Inr (JBuffer (Buffer_from_base64 s))
         | _ \<Rightarrow> Inr value)
      else Inl (UnknownFormat format))"

text \<open>The formats the two functions know.\<close>

definition formats :: "js_string list" where
  "formats = map ascii [''bool'', ''uint8'', ''uint16'', ''uint32'', ''uint64'', ''int'',
     ''float'', ''string'', ''data'']"

text \<open>
  The bytes \<^verbatim>\<open>bufferToValue\<close> reads for a format: the width of the number, and for
  \<^verbatim>\<open>uint64\<close> the low word and, when it is zero, the high word.
\<close>

definition bytes_read :: "js_string \<Rightarrow> buffer \<Rightarrow> nat" where
  "bytes_read format buffer =
     (if format = ascii ''bool'' \<or> format = ascii ''uint8'' then 1
      else if format = ascii ''uint16'' then 2
      else if format = ascii ''uint32'' \<or> format = ascii ''int'' \<or> format = ascii ''float''
        then 4
      else if format = ascii ''uint64''
        then (if 4 \<le> length buffer \<and> le_nat (take 4 buffer) = 0 then 8 else 4)
      else 0)"

text \<open>
  The values of the formats' domains. A string is well-formed UTF-16, the text that UTF-8
  can encode, when every surrogate is paired: a high one is followed by a low one, and a
  low one follows a high one. Its code points are then Unicode scalar values.
\<close>

definition scalar_value :: "nat \<Rightarrow> bool" where
  "scalar_value c = (c < 0x110000 \<and> \<not> high_surrogate c \<and> \<not> low_surrogate c)"

fun well_formed_units :: "nat list \<Rightarrow> bool" where
  "well_formed_units [] = True"
| "well_formed_units [c] = (\<not> high_surrogate c \<and> \<not> low_surrogate c)"
| "well_formed_units (c # d # us) =
     (if high_surrogate c then low_surrogate d \<and> well_formed_units us
      else \<not> low_surrogate c \<and> well_formed_units (d # us))"

definition well_formed_utf16 :: "js_string \<Rightarrow> bool" where
  "well_formed_utf16 s = well_formed_units (map unat s)"

text \<open>
  A string is canonical base64 when it is groups of four code units of the standard
  alphabet, the last group possibly ending in one or two \<^verbatim>\<open>=\<close>, and the bits of the
  last sextet that belong to no byte are zero.
\<close>

definition std_base64 :: "nat \<Rightarrow> bool" where
  "std_base64 c =
     ((0x41 \<le> c \<and> c \<le> 0x5A) \<or> (0x61 \<le> c \<and> c \<le> 0x7A) \<or> (0x30 \<le> c \<and> c \<le> 0x39) \<or>
      c = 0x2B \<or> c = 0x2F)"

definition sextet :: "nat \<Rightarrow> nat" where
  "sextet c = (case unbase64 c of Some v \<Rightarrow> v | None \<Rightarrow> 0)"

fun canonical_units :: "nat list \<Rightarrow> bool" where
  "canonical_units [] = True"
| "canonical_units [a, b, c, d] =
     (std_base64 a \<and> std_base64 b \<and>
      (if c = 0x3D then d = 0x3D \<and> sextet b mod 16 = 0
       else std_base64 c \<and> (if d = 0x3D then sextet c mod 4 = 0 else std_base64 d)))"
| "canonical_units (a # b # c # d # cs) =
     (std_base64 a \<and> std_base64 b \<and> std_base64 c \<and> std_base64 d \<and> canonical_units cs)"
| "canonical_units cs = False"

definition canonical_base64 :: "js_string \<Rightarrow> bool" where
  "canonical_base64 s = canonical_units (map unat s)"

text \<open>
  A value survives the codec: \<^verbatim>\<open>valueToBuffer\<close> yields a Buffer, and \<^verbatim>\<open>bufferToValue\<close>
  of that Buffer yields the value.
\<close>

definition roundtrip :: "(js_string \<Rightarrow> js_number) \<Rightarrow> js_value \<Rightarrow> js_string \<Rightarrow> bool" where
  "roundtrip S v format =
     (case valueToBuffer S v format of
        Inr (JBuffer b) \<Rightarrow> bufferToValue b format = Inr v
      | _ \<Rightarrow> False)"

section \<open>The platform's \<^verbatim>\<open>toLowerCase\<close>\<close>

text \<open>
  \<^verbatim>\<open>String.prototype.toLowerCase\<close> reads the string as code points: a high surrogate
  followed by a low one is one code point, every other code unit is a code point of its
  own, an unpaired surrogate included. Each code point is replaced by its lowercase
  mapping, a sequence of code points that may depend on the code points before and after
  it (the final sigma), and the result is written as UTF-16 again. The lowercase mapping
  is Unicode's table and a parameter \<open>tbl\<close> here.
\<close>

type_synonym lower_table = "nat list \<Rightarrow> nat \<Rightarrow> nat list \<Rightarrow> nat list"

fun code_points :: "nat list \<Rightarrow> nat list" where
  "code_points [] = []"
| "code_points [c] = [c]"
| "code_points (c # d # us) =
     (if high_surrogate c \<and> low_surrogate d
      then (0x10000 + (c - 0xD800) * 1024 + (d - 0xDC00)) # code_points us
      else c # code_points (d # us))"

fun lower_cps :: "lower_table \<Rightarrow> nat list \<Rightarrow> nat list \<Rightarrow> nat list" where
  "lower_cps tbl pre [] = []"
| "lower_cps tbl pre (c # post) = tbl pre c post @ lower_cps tbl (pre @ [c]) post"

definition js_toLowerCase :: "lower_table \<Rightarrow> js_string \<Rightarrow> js_string" where
  "js_toLowerCase tbl s =
     map of_nat (concat (map utf16_enc_cp (lower_cps tbl [] (code_points (map unat s)))))"

text \<open>
  Two facts of Unicode's table: the lowercase mapping of a scalar value consists of scalar
  values, and a code point of a lowercase mapping is its own lowercase mapping wherever it
  stands.
\<close>

definition lowercase_table :: "lower_table \<Rightarrow> bool" where
  "lowercase_table tbl =
     ((\<forall>pre c post d. scalar_value c \<and> d \<in> set (tbl pre c post) \<longrightarrow> scalar_value d) \<and>
      (\<forall>pre c post d pre' post'. d \<in> set (tbl pre c post) \<longrightarrow> tbl pre' d post' = [d]))"

text \<open>
  Unicode's lowercase mapping on the ASCII letters and on the Deseret capital letters,
  U+10400 to U+10427, whose lowercase is 40 code points up. Every other code point is left
  as it is, which is Unicode's mapping of the digits, the punctuation and the surrogates,
  and not of the other cased letters.
\<close>

definition lower_sample :: lower_table where
  "lower_sample pre c post =
     (if 0x41 \<le> c \<and> c \<le> 0x5A then [c + 0x20]
      else if 0x10400 \<le> c \<and> c \<le> 0x10427 then [c + 0x28]
      else [c])"

text \<open>
  A string is in noble's form for the UUID conversion when it has no dash and is its own
  lowercase.
\<close>

definition compact_form :: "(js_string \<Rightarrow> js_string) \<Rightarrow> js_string \<Rightarrow> bool" where
  "compact_form lower s = (dash \<notin> set s \<and> lower s = s)"

text \<open>
  The restriction of the claim on idempotence: the lowercase mapping of every code point
  of the string is a single code point.
\<close>

definition single_lowercase :: "lower_table \<Rightarrow> js_string \<Rightarrow> bool" where
  "single_lowercase tbl s =
     (\<forall>c \<in> set (code_points (map unat s)). \<forall>pre post. length (tbl pre c post) = 1)"

section \<open>Properties of the UUID conversion\<close>

lemma substring_take_drop:
  "a \<le> b \<Longrightarrow> b \<le> length s \<Longrightarrow> substring s a b = take (b - a) (drop a s)"
  by (simp add: substring_def Let_def min_def max_def)

lemma split5:
  assumes "length u = 32"
  shows "u = take 8 u @ take 4 (drop 8 u) @ take 4 (drop 12 u) @ take 4 (drop 16 u) @ take 12 (drop 20 u)"
proof -
  have "take 12 (drop 20 u) = drop 20 u" using assms by simp
  moreover have "take 4 (drop 16 u) @ drop 20 u = drop 16 u"
    using append_take_drop_id [of 4 "drop 16 u"] by simp
  moreover have "take 4 (drop 12 u) @ drop 16 u = drop 12 u"
    using append_take_drop_id [of 4 "drop 12 u"] by simp
  moreover have "take 4 (drop 8 u) @ drop 12 u = drop 8 u"
    using append_take_drop_id [of 4 "drop 8 u"] by simp
  ultimately show ?thesis by simp
qed

text \<open>
  C8: \<^verbatim>\<open>nobleUuidToUuid\<close> uppercases its argument. When the uppercased string does not
  have 32 code units, it is the result. When it has 32, it is cut into five groups of 8, 4,
  4, 4 and 12 code units, and the result is the groups with a dash between them. This
  holds whatever \<^verbatim>\<open>toUpperCase\<close> does to the string.
\<close>

theorem nobleUuidToUuid_groups:
  "(length (toUpperCase s) \<noteq> 32 \<longrightarrow> nobleUuidToUuid toUpperCase s = toUpperCase s) \<and>
   (length (toUpperCase s) = 32 \<longrightarrow>
      (\<exists>a b c d e.
         toUpperCase s = a @ b @ c @ d @ e \<and>
         length a = 8 \<and> length b = 4 \<and> length c = 4 \<and> length d = 4 \<and> length e = 12 \<and>
         nobleUuidToUuid toUpperCase s = a @ [dash] @ b @ [dash] @ c @ [dash] @ d @ [dash] @ e))"
proof (intro conjI impI)
  assume "length (toUpperCase s) \<noteq> 32"
  then show "nobleUuidToUuid toUpperCase s = toUpperCase s"
    by (simp add: nobleUuidToUuid_def)
next
  let ?u = "toUpperCase s"
  assume len: "length ?u = 32"
  let ?a = "take 8 ?u" and ?b = "take 4 (drop 8 ?u)" and ?c = "take 4 (drop 12 ?u)"
  let ?d = "take 4 (drop 16 ?u)" and ?e = "take 12 (drop 20 ?u)"
  have sub: "substring ?u 0 8 = ?a" "substring ?u 8 12 = ?b" "substring ?u 12 16 = ?c"
    "substring ?u 16 20 = ?d" "substring ?u 20 32 = ?e"
    using len by (simp_all add: substring_take_drop)
  have "nobleUuidToUuid toUpperCase s = ?a @ [dash] @ ?b @ [dash] @ ?c @ [dash] @ ?d @ [dash] @ ?e"
    using len by (simp add: nobleUuidToUuid_def Let_def sub ascii_def dash_def)
  moreover have "?u = ?a @ ?b @ ?c @ ?d @ ?e" using len by (rule split5)
  moreover have "length ?a = 8" "length ?b = 4" "length ?c = 4" "length ?d = 4" "length ?e = 12"
    using len by simp_all
  ultimately show "\<exists>a b c d e.
         ?u = a @ b @ c @ d @ e \<and>
         length a = 8 \<and> length b = 4 \<and> length c = 4 \<and> length d = 4 \<and> length e = 12 \<and>
         nobleUuidToUuid toUpperCase s = a @ [dash] @ b @ [dash] @ c @ [dash] @ d @ [dash] @ e"
    by blast
qed

lemma up_abc: "ascii_toUpperCase (ascii ''abc'') = ascii ''ABC''"
  by (simp add: ascii_toUpperCase_def ascii_upper_def ascii_def)

lemma up_uuid: "ascii_toUpperCase (ascii ''0000180d00001000800000805f9b34fb'') = ascii ''0000180D00001000800000805F9B34FB''"
  by (simp add: ascii_toUpperCase_def ascii_upper_def ascii_def)

theorem nobleUuidToUuid_groups_witness:
  "length (ascii_toUpperCase (ascii ''abc'')) \<noteq> 32 \<and>
   nobleUuidToUuid ascii_toUpperCase (ascii ''abc'') = ascii ''ABC'' \<and>
   length (ascii_toUpperCase (ascii ''0000180d00001000800000805f9b34fb'')) = 32 \<and>
   (\<exists>a b c d e.
      ascii ''0000180D00001000800000805F9B34FB'' = a @ b @ c @ d @ e \<and>
      length a = 8 \<and> length b = 4 \<and> length c = 4 \<and> length d = 4 \<and> length e = 12 \<and>
      nobleUuidToUuid ascii_toUpperCase (ascii ''0000180d00001000800000805f9b34fb'') =
        a @ [dash] @ b @ [dash] @ c @ [dash] @ d @ [dash] @ e)"
  using nobleUuidToUuid_groups [of ascii_toUpperCase "ascii ''abc''"]
    nobleUuidToUuid_groups [of ascii_toUpperCase "ascii ''0000180d00001000800000805f9b34fb''"]
  unfolding up_abc up_uuid by (simp add: ascii_def)

lemma ascii_upper_lower: "ascii_upper (ascii_lower c) = ascii_upper c"
proof (cases "0x41 \<le> c \<and> c \<le> 0x5A")
  case True
  then have u: "65 \<le> unat c" "unat c \<le> 90" by (simp_all add: word_le_nat_alt)
  then have "unat (c + 0x20) = unat c + 32" by (simp add: unat_word_ariths)
  with u have "0x61 \<le> c + 0x20" "c + 0x20 \<le> 0x7A" "\<not> 0x61 \<le> c"
    by (simp_all add: word_le_nat_alt)
  with True show ?thesis by (simp add: ascii_lower_def ascii_upper_def)
next
  case False
  then show ?thesis by (auto simp: ascii_lower_def)
qed

lemma ascii_lower_dash: "ascii_lower c = dash \<longleftrightarrow> c = dash"
  unfolding ascii_lower_def dash_def by unat_arith

lemma ascii_upper_dash: "ascii_upper dash = dash"
  by (simp add: ascii_upper_def dash_def)

lemma filter_no_dash:
  "dash \<notin> set s \<Longrightarrow> filter (\<lambda>c. c \<noteq> dash) (map ascii_lower s) = map ascii_lower s"
  by (induction s) (auto simp: ascii_lower_dash)

text \<open>
  A UUID of ASCII characters in the dashed form, groups of 8, 4, 4, 4 and 12, converted to
  noble's form and back, is the UUID in upper case.
\<close>

theorem uuid_roundtrip:
  assumes "length a = 8" and "length b = 4" and "length c = 4" and "length d = 4"
    and "length e = 12" and "dash \<notin> set (a @ b @ c @ d @ e)"
  shows "nobleUuidToUuid ascii_toUpperCase
           (uuidToNobleUuid ascii_toLowerCase (a @ [dash] @ b @ [dash] @ c @ [dash] @ d @ [dash] @ e)) =
         ascii_toUpperCase (a @ [dash] @ b @ [dash] @ c @ [dash] @ d @ [dash] @ e)"
proof -
  let ?U = "map ascii_upper"
  have nd: "dash \<notin> set a" "dash \<notin> set b" "dash \<notin> set c" "dash \<notin> set d" "dash \<notin> set e"
    using assms(6) by simp_all
  have "uuidToNobleUuid ascii_toLowerCase (a @ [dash] @ b @ [dash] @ c @ [dash] @ d @ [dash] @ e) =
      map ascii_lower (a @ b @ c @ d @ e)"
    using nd by (simp add: uuidToNobleUuid_def ascii_toLowerCase_def filter_no_dash ascii_lower_dash)
  then have n: "ascii_toUpperCase
      (uuidToNobleUuid ascii_toLowerCase (a @ [dash] @ b @ [dash] @ c @ [dash] @ d @ [dash] @ e)) =
      ?U a @ ?U b @ ?U c @ ?U d @ ?U e"
    by (simp add: ascii_toUpperCase_def ascii_upper_lower)
  have sub: "substring (?U a @ ?U b @ ?U c @ ?U d @ ?U e) 0 8 = ?U a"
    "substring (?U a @ ?U b @ ?U c @ ?U d @ ?U e) 8 12 = ?U b"
    "substring (?U a @ ?U b @ ?U c @ ?U d @ ?U e) 12 16 = ?U c"
    "substring (?U a @ ?U b @ ?U c @ ?U d @ ?U e) 16 20 = ?U d"
    "substring (?U a @ ?U b @ ?U c @ ?U d @ ?U e) 20 32 = ?U e"
    using assms(1-5) by (simp_all add: substring_def)
  show ?thesis
    unfolding nobleUuidToUuid_def n Let_def sub
    using assms(1-5) ascii_upper_dash
    by (simp add: ascii_toUpperCase_def ascii_def dash_def)
qed

theorem uuid_roundtrip_witness:
  "nobleUuidToUuid ascii_toUpperCase
     (uuidToNobleUuid ascii_toLowerCase (ascii ''0000180d-0000-1000-8000-00805f9b34fb'')) =
   ascii ''0000180D-0000-1000-8000-00805F9B34FB''"
proof -
  have "dash \<notin> set (ascii ''0000180d'' @ ascii ''0000'' @ ascii ''1000'' @ ascii ''8000'' @
      ascii ''00805f9b34fb'')"
    by (simp add: ascii_def dash_def)
  from uuid_roundtrip [OF _ _ _ _ _ this]
  show ?thesis
    by (simp add: ascii_def dash_def ascii_toUpperCase_def ascii_upper_def)
qed

section \<open>Properties of the watcher\<close>

lemma fn_fields [simp]:
  "listeners (fn i r w) = listeners w"
  "timers (fn i r w) = timers w"
  "next_id (fn i r w) = next_id w"
  by (simp_all add: fn_def Let_def)

lemma calls_fn:
  "calls (fn i r w) = calls w @ [(i, if truthy r then r else JString (ascii ''Disconnected''))]"
  by (simp add: fn_def Let_def)

lemma fired_fn:
  "fired j (fn i r w) =
     (if i = j then fired j w @ [if truthy r then r else JString (ascii ''Disconnected'')]
      else fired j w)"
  by (simp add: fn_def fired_def Let_def)

lemma calls_fn_bound:
  "list_all (\<lambda>p. fst p < n) (calls w) \<Longrightarrow> i < n \<Longrightarrow> list_all (\<lambda>p. fst p < n) (calls (fn i r w))"
  by (simp add: fn_def Let_def)

lemma foldl_fn_fields [simp]:
  "listeners (foldl (\<lambda>w' i. fn i r w') w ls) = listeners w"
  "timers (foldl (\<lambda>w' i. fn i r w') w ls) = timers w"
  "next_id (foldl (\<lambda>w' i. fn i r w') w ls) = next_id w"
  by (induction ls arbitrary: w) simp_all

lemma fired_foldl_fn:
  "j \<notin> set ls \<Longrightarrow> fired j (foldl (\<lambda>w' i. fn i r w') w ls) = fired j w"
  by (induction ls arbitrary: w) (auto simp: fired_fn)

lemma calls_foldl_fn_bound:
  "list_all (\<lambda>p. fst p < n) (calls w) \<Longrightarrow> list_all (\<lambda>i. i < n) ls \<Longrightarrow>
   list_all (\<lambda>p. fst p < n) (calls (foldl (\<lambda>w' i. fn i r w') w ls))"
  by (induction ls arbitrary: w) (simp_all add: calls_fn_bound)

lemma listeners_removeListener [simp]:
  "listeners (removeListener f w) = rev (remove1 f (rev (listeners w)))"
  by (simp add: removeListener_def)

lemma removeListener_fields [simp]:
  "timers (removeListener f w) = timers w"
  "next_id (removeListener f w) = next_id w"
  "calls (removeListener f w) = calls w"
  "rejected (removeListener f w) = rejected w"
  by (simp_all add: removeListener_def)

lemma clearTimeout_fields [simp]:
  "listeners (clearTimeout t w) = listeners w"
  "next_id (clearTimeout t w) = next_id w"
  "calls (clearTimeout t w) = calls w"
  "rejected (clearTimeout t w) = rejected w"
  "timers (clearTimeout t w) = filter (\<lambda>p. fst p \<noteq> t) (timers w)"
  by (simp_all add: clearTimeout_def)

lemma removeWatcher_fields [simp]:
  "next_id (removeWatcher w h) = next_id w"
  "calls (removeWatcher w h) = calls w"
  by (simp_all add: removeWatcher_def Let_def split: option.splits)

lemma listeners_removeWatcher_eq:
  "listeners (removeWatcher w h) = rev (remove1 (w_fn h) (rev (listeners w)))"
  by (simp add: removeWatcher_def Let_def split: option.splits)

lemma listeners_removeWatcher: "set (listeners (removeWatcher w h)) \<subseteq> set (listeners w)"
  using set_remove1_subset [of "w_fn h" "rev (listeners w)"] by (simp add: listeners_removeWatcher_eq)

lemma timers_removeWatcher_eq:
  "timers (removeWatcher w h) =
    (case w_timeout h of None \<Rightarrow> timers w | Some t \<Rightarrow> filter (\<lambda>p. fst p \<noteq> t) (timers w))"
  by (simp add: removeWatcher_def Let_def split: option.splits)

lemma timers_removeWatcher: "set (timers (removeWatcher w h)) \<subseteq> set (timers w)"
  by (auto simp: timers_removeWatcher_eq split: option.splits)

lemma addWatcher_fields:
  "next_id (snd (addWatcher w t)) = Suc (next_id w)"
  "listeners (snd (addWatcher w t)) = listeners w @ [next_id w]"
  "calls (snd (addWatcher w t)) = calls w"
  "set (timers (snd (addWatcher w t))) \<subseteq> set (timers w) \<union> {next_id w} \<times> UNIV"
  "w_fn (fst (addWatcher w t)) = next_id w"
  by (auto simp: addWatcher_def Let_def)

lemma fired_simps [simp]:
  "fired i (clearTimeout t w) = fired i w"
  "fired i (removeListener f w) = fired i w"
  "fired i (removeWatcher w h) = fired i w"
  "fired i (snd (addWatcher w t')) = fired i w"
  "fired i (w\<lparr>listeners := l\<rparr>) = fired i w"
  by (simp_all add: fired_def addWatcher_fields)

lemma quiet_step: "quiet i w \<Longrightarrow> quiet i (step w a) \<and> fired i (step w a) = fired i w"
proof (cases a)
  case (Add t)
  assume q: "quiet i w"
  then have ne: "i \<noteq> next_id w" by (simp add: quiet_def)
  have "i \<notin> fst ` set (timers (snd (addWatcher w t)))"
    using q ne addWatcher_fields(4) [of w t] by (auto simp: quiet_def)
  with q ne show ?thesis
    by (simp add: Add quiet_def addWatcher_fields(1,2,3))
next
  case (Remove h)
  assume "quiet i w"
  then show ?thesis
    using listeners_removeWatcher [of w h] timers_removeWatcher [of w h]
    by (auto simp: Remove quiet_def)
next
  case (Disconnect r)
  assume q: "quiet i w"
  then have "fired i (emit_disconnect r w) = fired i w"
    by (simp add: emit_disconnect_def quiet_def fired_foldl_fn)
  then show ?thesis using q
    by (simp add: Disconnect quiet_def emit_disconnect_def)
next
  case (Expire t)
  assume q: "quiet i w"
  then have "t \<in> fst ` set (timers w) \<Longrightarrow> t \<noteq> i" by (auto simp: quiet_def)
  with q show ?thesis
    by (auto simp: Expire quiet_def expire_def timer_callback_def fired_fn)
qed

lemma quiet_run: "quiet i w \<Longrightarrow> quiet i (run acts w) \<and> fired i (run acts w) = fired i w"
  unfolding run_def by (induction acts arbitrary: w) (simp_all add: quiet_step)

lemma wf_step: "wf_world w \<Longrightarrow> wf_world (step w a)"
proof (cases a)
  case (Add t)
  assume "wf_world w"
  then show ?thesis
    by (auto simp: Add wf_world_def addWatcher_def Let_def list_all_iff)
next
  case (Remove h)
  assume w: "wf_world w"
  have "distinct (listeners (removeWatcher w h))"
    using w by (simp add: wf_world_def removeWatcher_def removeListener_def Let_def split: option.splits)
  with w show ?thesis
    using listeners_removeWatcher [of w h] timers_removeWatcher [of w h]
    by (auto simp: Remove wf_world_def list_all_iff)
next
  case (Disconnect r)
  assume "wf_world w"
  then show ?thesis
    using calls_foldl_fn_bound [of "next_id w" "w\<lparr>listeners := []\<rparr>" "listeners w" r]
    by (simp add: Disconnect wf_world_def emit_disconnect_def)
next
  case (Expire t)
  assume w: "wf_world w"
  then have "t \<in> fst ` set (timers w) \<Longrightarrow> t < next_id w"
    by (auto simp: wf_world_def list_all_iff)
  with w show ?thesis
    by (auto simp: Expire wf_world_def expire_def timer_callback_def list_all_iff calls_fn)
qed

lemma wf_run: "wf_world w \<Longrightarrow> wf_world (run acts w)"
  unfolding run_def by (induction acts arbitrary: w) (simp_all add: wf_step)

lemma wf_reachable: "wf_world (run acts init_world)"
  by (rule wf_run) (simp add: wf_world_def init_world_def)

lemma next_id_step: "next_id w \<le> next_id (step w a)"
  by (cases a) (simp_all add: addWatcher_fields emit_disconnect_def expire_def timer_callback_def)

lemma next_id_run: "next_id w \<le> next_id (run acts w)"
  unfolding run_def
proof (induction acts arbitrary: w)
  case Nil
  show ?case by simp
next
  case (Cons a acts)
  have "next_id w \<le> next_id (step w a)" by (rule next_id_step)
  also have "\<dots> \<le> next_id (foldl step (step w a) acts)" by (rule Cons.IH)
  finally show ?case by simp
qed

lemma quiet_removeWatcher:
  assumes "wf_world w" and "w_fn h < next_id w" and "w_timeout h = None \<Longrightarrow> w_fn h \<notin> fst ` set (timers w)"
    and "\<And>t. w_timeout h = Some t \<Longrightarrow> t = w_fn h"
  shows "quiet (w_fn h) (removeWatcher w h)"
proof -
  have "distinct (rev (listeners w))" using assms(1) by (simp add: wf_world_def)
  then have "w_fn h \<notin> set (remove1 (w_fn h) (rev (listeners w)))" by simp
  then have "w_fn h \<notin> set (listeners (removeWatcher w h))"
    by (simp add: removeWatcher_def removeListener_def Let_def split: option.splits)
  moreover have "w_fn h \<notin> fst ` set (timers (removeWatcher w h))"
    using assms(3,4) by (auto simp: removeWatcher_def Let_def split: option.splits)
  ultimately show ?thesis using assms(2) by (simp add: quiet_def)
qed

lemma no_timer_step:
  assumes "i < next_id w" and "i \<notin> fst ` set (timers w)"
  shows "i < next_id (step w a) \<and> i \<notin> fst ` set (timers (step w a))"
proof (cases a)
  case (Add t)
  show ?thesis using assms addWatcher_fields(4) [of w t]
    by (auto simp: Add addWatcher_fields(1))
next
  case (Remove h)
  show ?thesis using assms timers_removeWatcher [of w h] by (auto simp: Remove)
next
  case (Disconnect r)
  show ?thesis using assms by (simp add: Disconnect emit_disconnect_def)
next
  case (Expire t)
  show ?thesis using assms by (auto simp: Expire expire_def timer_callback_def)
qed

lemma no_timer_run:
  "i < next_id w \<Longrightarrow> i \<notin> fst ` set (timers w) \<Longrightarrow>
   i < next_id (run acts w) \<and> i \<notin> fst ` set (timers (run acts w))"
  unfolding run_def by (induction acts arbitrary: w) (simp_all add: no_timer_step)

lemma no_disconnect_step:
  assumes "i \<notin> fst ` set (timers w)" and "\<not> is_disconnect a"
  shows "fired i (step w a) = fired i w"
proof (cases a)
  case (Expire t)
  from assms(1) have "t \<in> fst ` set (timers w) \<Longrightarrow> t \<noteq> i" by auto
  then show ?thesis by (auto simp: Expire expire_def timer_callback_def fired_fn)
qed (use assms in simp_all)

lemma no_disconnect_run:
  "i < next_id w \<Longrightarrow> i \<notin> fst ` set (timers w) \<Longrightarrow> list_all (\<lambda>a. \<not> is_disconnect a) acts \<Longrightarrow>
   fired i (run acts w) = fired i w"
  unfolding run_def
proof (induction acts arbitrary: w)
  case Nil
  show ?case by simp
next
  case (Cons a acts)
  from Cons.prems have "fired i (step w a) = fired i w" by (simp add: no_disconnect_step)
  moreover from Cons.prems have "fired i (foldl step (step w a) acts) = fired i (step w a)"
    using no_timer_step [of i w a] by (intro Cons.IH) simp_all
  ultimately show ?case by simp
qed

lemma addWatcher_fresh:
  assumes "wf_world w0" and "addWatcher w0 timeout = (h, w1)"
  shows "w_fn h = next_id w0" and "w_fn h < next_id w1" and "wf_world w1"
    and "fired (w_fn h) w1 = []"
    and "w_timeout h = None \<Longrightarrow> w_fn h \<notin> fst ` set (timers w1)"
    and "\<And>t. w_timeout h = Some t \<Longrightarrow> t = w_fn h"
proof -
  have h: "h = fst (addWatcher w0 timeout)" and w1: "w1 = snd (addWatcher w0 timeout)"
    using assms(2) by simp_all
  show fn: "w_fn h = next_id w0" by (simp add: h addWatcher_fields)
  show "w_fn h < next_id w1" by (simp add: fn w1 addWatcher_fields)
  show "wf_world w1" using wf_step [OF assms(1), of "Add timeout"] by (simp add: w1)
  have "\<forall>p \<in> set (calls w0). fst p \<noteq> next_id w0"
    using assms(1) by (auto simp: wf_world_def list_all_iff)
  then have "filter (\<lambda>p. fst p = next_id w0) (calls w0) = []"
    by (simp add: filter_empty_conv)
  then show "fired (w_fn h) w1 = []" by (simp add: fn w1 fired_def addWatcher_fields)
  have "\<forall>p \<in> set (timers w0). fst p \<noteq> next_id w0"
    using assms(1) by (auto simp: wf_world_def list_all_iff)
  then show "w_timeout h = None \<Longrightarrow> w_fn h \<notin> fst ` set (timers w1)"
    unfolding fn h w1 by (auto simp: addWatcher_def Let_def split: if_splits)
  show "\<And>t. w_timeout h = Some t \<Longrightarrow> t = w_fn h"
    unfolding h by (auto simp: addWatcher_def Let_def split: if_splits)
qed

text \<open>
  C9: \<^verbatim>\<open>removeWatcher\<close>, called on a watcher whose \<^verbatim>\<open>rejectFn\<close> has not been called,
  leaves the watcher with no listener on the peripheral and no pending timer, and whatever
  happens afterwards (\<open>acts2\<close>: disconnects, timers expiring, other watchers added and
  removed), \<^verbatim>\<open>rejectFn\<close> is never called for it.
\<close>

theorem removeWatcher_before_trigger:
  assumes "wf_world w0" and "addWatcher w0 timeout = (h, w1)"
    and "w2 = run acts1 w1" and "fired (w_fn h) w2 = []"
    and "w3 = removeWatcher w2 h"
  shows "w_fn h \<notin> set (listeners w3) \<and> w_fn h \<notin> fst ` set (timers w3) \<and>
         fired (w_fn h) (run acts2 w3) = []"
proof -
  note fresh = addWatcher_fresh [OF assms(1,2)]
  have wf2: "wf_world w2" unfolding assms(3) using fresh(3) by (rule wf_run)
  have lt: "w_fn h < next_id w2"
    using fresh(2) next_id_run [of w1 acts1] by (simp add: assms(3))
  have nt: "w_timeout h = None \<Longrightarrow> w_fn h \<notin> fst ` set (timers w2)"
    unfolding assms(3) using no_timer_run [OF fresh(2)] fresh(5) by blast
  have q: "quiet (w_fn h) w3"
    unfolding assms(5) using wf2 lt nt fresh(6) by (rule quiet_removeWatcher)
  have "fired (w_fn h) (run acts2 w3) = fired (w_fn h) w3"
    using quiet_run [OF q] by simp
  also have "\<dots> = []" by (simp add: assms(4,5))
  finally show ?thesis using q by (simp add: quiet_def)
qed

lemma ex_add: "addWatcher init_world (JNumber (Finite 3000)) =
  (\<lparr>w_rejected = False, w_fn = 0, w_timeout = Some 0\<rparr>,
   \<lparr>rejected = (\<lambda>_. False)(0 := False), listeners = [0], timers = [(0, JNumber (Finite 3000))], calls = [], next_id = Suc 0\<rparr>)"
  by (simp add: addWatcher_def init_world_def Let_def)

theorem removeWatcher_before_trigger_witness:
  "wf_world init_world \<and>
   fired 0 (run [Expire 0, Disconnect JUndefined, Expire 0]
     (removeWatcher (snd (addWatcher init_world (JNumber (Finite 3000))))
        (fst (addWatcher init_world (JNumber (Finite 3000)))))) = []"
proof -
  have wf: "wf_world init_world" by (simp add: wf_world_def init_world_def)
  have f: "fired (w_fn \<lparr>w_rejected = False, w_fn = 0, w_timeout = Some 0\<rparr>) (run [] (snd (addWatcher init_world (JNumber (Finite 3000))))) = []"
    by (simp add: ex_add run_def fired_def)
  show ?thesis
    using wf removeWatcher_before_trigger [OF wf ex_add refl, of "[]" _ "[Expire 0, Disconnect JUndefined, Expire 0]", OF _ refl]
      f
    by (simp add: ex_add run_def)
qed

text \<open>
  C5, as amended: a timeout that is passed and is falsy (\<open>0\<close>, \<^verbatim>\<open>null\<close>) disables the
  timer: the watcher has no timer, and as long as no disconnect is delivered
  \<^verbatim>\<open>rejectFn\<close> is never called. A timeout that is omitted is the default, 3000: the
  watcher has a timer, pending with that delay.
\<close>

theorem addWatcher_timeout_disabled:
  assumes "wf_world w0" and "addWatcher w0 timeout = (h, w1)"
    and "list_all (\<lambda>a. \<not> is_disconnect a) acts"
  shows "(timeout \<noteq> JUndefined \<and> \<not> truthy timeout \<longrightarrow>
            w_timeout h = None \<and> w_fn h \<notin> fst ` set (timers w1) \<and>
            fired (w_fn h) (run acts w1) = []) \<and>
         (timeout = JUndefined \<longrightarrow>
            w_timeout h = Some (w_fn h) \<and>
            (w_fn h, JNumber (Finite 3000)) \<in> set (timers w1))"
proof (intro conjI impI)
  note fresh = addWatcher_fresh [OF assms(1,2)]
  have h: "h = fst (addWatcher w0 timeout)" and w1: "w1 = snd (addWatcher w0 timeout)"
    using assms(2) by simp_all
  {
    assume f: "timeout \<noteq> JUndefined \<and> \<not> truthy timeout"
    then show none: "w_timeout h = None" by (simp add: h addWatcher_def Let_def)
    then show nt: "w_fn h \<notin> fst ` set (timers w1)" by (rule fresh(5))
    show "fired (w_fn h) (run acts w1) = []"
      using no_disconnect_run [OF fresh(2) nt assms(3)] fresh(4) by simp
  }
  {
    assume u: "timeout = JUndefined"
    show "w_timeout h = Some (w_fn h)" by (simp add: h u addWatcher_def Let_def)
    show "(w_fn h, JNumber (Finite 3000)) \<in> set (timers w1)"
      by (simp add: h w1 u addWatcher_def Let_def)
  }
qed

theorem addWatcher_timeout_disabled_witness:
  "wf_world init_world \<and>
   w_timeout (fst (addWatcher init_world (JNumber (Finite 0)))) = None \<and>
   fired 0 (run [Expire 0, Add JNull, Expire 1] (snd (addWatcher init_world (JNumber (Finite 0))))) = [] \<and>
   w_timeout (fst (addWatcher init_world JUndefined)) = Some 0 \<and>
   (0, JNumber (Finite 3000)) \<in> set (timers (snd (addWatcher init_world JUndefined)))"
proof -
  have wf: "wf_world init_world" by (simp add: wf_world_def init_world_def)
  have na: "list_all (\<lambda>a. \<not> is_disconnect a) [Expire 0, Add JNull, Expire 1]" by simp
  have f0: "w_fn (fst (addWatcher init_world (JNumber (Finite 0)))) = 0"
    and fu: "w_fn (fst (addWatcher init_world JUndefined)) = 0"
    by (simp_all add: addWatcher_fields init_world_def)
  show ?thesis
    using wf
      addWatcher_timeout_disabled [OF wf prod.collapse [symmetric] na, of "JNumber (Finite 0)"]
      addWatcher_timeout_disabled [OF wf prod.collapse [symmetric] na, of JUndefined]
    by (simp add: f0 fu)
qed

text \<open>
  C5 as stated fails for the omitted timeout: the watcher has a timer, and when it expires
  with no disconnect delivered, \<^verbatim>\<open>rejectFn\<close> is called with \<^verbatim>\<open>'Timeout'\<close>.
\<close>

theorem addWatcher_omitted_timeout_counterexample:
  "w_timeout (fst (addWatcher init_world JUndefined)) = Some 0 \<and>
   fired 0 (run [Expire 0] (snd (addWatcher init_world JUndefined))) = [JString (ascii ''Timeout'')]"
  by (simp add: addWatcher_def init_world_def Let_def run_def expire_def clearTimeout_def
      timer_callback_def fn_def fired_def ascii_def)

text \<open>
  C1: the timer's callback looks at \<^verbatim>\<open>rejected\<close> before it calls \<^verbatim>\<open>fn\<close>; the
  disconnect listener is \<^verbatim>\<open>fn\<close> itself and does not. When the timer expires first and
  the disconnect is delivered before \<^verbatim>\<open>removeWatcher\<close>, \<^verbatim>\<open>rejectFn\<close> is called twice.
  In the other order it is called once.
\<close>

theorem rejectFn_called_twice:
  "fired 0 (run [Add (JNumber (Finite 3000)), Expire 0, Disconnect JUndefined] init_world) =
     [JString (ascii ''Timeout''), JString (ascii ''Disconnected'')] \<and>
   fired 0 (run [Add (JNumber (Finite 3000)), Disconnect JUndefined, Expire 0] init_world) =
     [JString (ascii ''Disconnected'')]"
  by (simp add: addWatcher_def init_world_def Let_def run_def expire_def clearTimeout_def
      timer_callback_def fn_def fired_def emit_disconnect_def ascii_def)

text \<open>
  C4: the field \<^verbatim>\<open>rejected\<close> of the watcher is false when \<^verbatim>\<open>addWatcher\<close> returns.
  When \<^verbatim>\<open>fn\<close> is called, the variable \<^verbatim>\<open>rejected\<close> of the closure becomes true and
  \<^verbatim>\<open>rejectFn\<close> is called; the watcher's field, a copy, is still false.
\<close>

theorem watcher_rejected_field_stale:
  "w_rejected (fst (addWatcher init_world (JNumber (Finite 3000)))) = False \<and>
   rejected (run [Disconnect JUndefined] (snd (addWatcher init_world (JNumber (Finite 3000)))))
     (w_fn (fst (addWatcher init_world (JNumber (Finite 3000))))) = True \<and>
   fired 0 (run [Disconnect JUndefined] (snd (addWatcher init_world (JNumber (Finite 3000))))) =
     [JString (ascii ''Disconnected'')]"
  by (simp add: addWatcher_def init_world_def Let_def run_def fn_def fired_def emit_disconnect_def)

lemma rejected_fn: "rejected (fn j r w) i = (i = j \<or> rejected w i)"
  by (simp add: fn_def Let_def)

lemma rejected_foldl_fn:
  "rejected (foldl (\<lambda>w' j. fn j r w') w ls) i = (i \<in> set ls \<or> rejected w i)"
  by (induction ls arbitrary: w) (auto simp: rejected_fn)

lemma fired_foldl_fn_once:
  "distinct ls \<Longrightarrow> i \<in> set ls \<Longrightarrow>
   fired i (foldl (\<lambda>w' j. fn j r w') w ls) =
     fired i w @ [if truthy r then r else JString (ascii ''Disconnected'')]"
proof (induction ls arbitrary: w)
  case Nil
  then show ?case by simp
next
  case (Cons j ls)
  show ?case
  proof (cases "i = j")
    case True
    with Cons.prems have "i \<notin> set ls" by simp
    then show ?thesis using True by (simp add: fired_foldl_fn fired_fn)
  next
    case False
    with Cons.prems have "distinct ls" "i \<in> set ls" by simp_all
    then show ?thesis using False Cons.IH by (simp add: fired_fn)
  qed
qed

lemma spent_step: "spent i w \<Longrightarrow> spent i (step w a) \<and> fired i (step w a) = fired i w"
proof (cases a)
  case (Add t)
  assume s: "spent i w"
  then have "i \<noteq> next_id w" by (simp add: spent_def)
  moreover have "rejected (snd (addWatcher w t)) = (rejected w)(next_id w := False)"
    by (simp add: addWatcher_def Let_def)
  ultimately show ?thesis using s by (simp add: Add spent_def addWatcher_fields(1,2))
next
  case (Remove h)
  assume "spent i w"
  moreover have "rejected (removeWatcher w h) = rejected w"
    by (simp add: removeWatcher_def Let_def split: option.splits)
  ultimately show ?thesis
    using listeners_removeWatcher [of w h] by (auto simp: Remove spent_def)
next
  case (Disconnect r)
  assume s: "spent i w"
  then have "fired i (emit_disconnect r w) = fired i w"
    by (simp add: emit_disconnect_def spent_def fired_foldl_fn)
  then show ?thesis using s
    by (simp add: Disconnect spent_def emit_disconnect_def rejected_foldl_fn)
next
  case (Expire t)
  assume "spent i w"
  then show ?thesis
    by (auto simp: Expire spent_def expire_def timer_callback_def fired_fn rejected_fn)
qed

lemma spent_run: "spent i w \<Longrightarrow> spent i (run acts w) \<and> fired i (run acts w) = fired i w"
  unfolding run_def by (induction acts arbitrary: w) (simp_all add: spent_step)

text \<open>
  The order the timer's callback is guarded for: when the disconnect is delivered to a
  watcher that is still registered, \<^verbatim>\<open>rejectFn\<close> is called once with the reason, and
  nothing that happens afterwards calls it again, the timer expiring included.
\<close>

theorem disconnect_fires_once:
  assumes "wf_world w" and "i \<in> set (listeners w)"
  shows "fired i (run acts (emit_disconnect r w)) =
     fired i w @ [if truthy r then r else JString (ascii ''Disconnected'')]"
proof -
  have d: "distinct (listeners w)" and lt: "i < next_id w"
    using assms by (auto simp: wf_world_def list_all_iff)
  have "spent i (emit_disconnect r w)"
    using assms(2) lt by (simp add: spent_def emit_disconnect_def rejected_foldl_fn)
  then have "fired i (run acts (emit_disconnect r w)) = fired i (emit_disconnect r w)"
    using spent_run by blast
  also have "\<dots> = fired i w @ [if truthy r then r else JString (ascii ''Disconnected'')]"
    using fired_foldl_fn_once [OF d assms(2), of r "w\<lparr>listeners := []\<rparr>"]
    by (simp add: emit_disconnect_def)
  finally show ?thesis .
qed

theorem disconnect_fires_once_witness:
  "fired 0 (run [Expire 0, Disconnect JUndefined, Expire 0]
     (emit_disconnect JUndefined (snd (addWatcher init_world (JNumber (Finite 3000)))))) =
   [JString (ascii ''Disconnected'')]"
proof -
  have wf: "wf_world (snd (addWatcher init_world (JNumber (Finite 3000))))"
    and l: "0 \<in> set (listeners (snd (addWatcher init_world (JNumber (Finite 3000)))))"
    by (simp_all add: ex_add wf_world_def)
  have f: "fired 0 init_world = []" by (simp add: fired_def init_world_def)
  from disconnect_fires_once [OF wf l, of "[Expire 0, Disconnect JUndefined, Expire 0]" JUndefined]
  show ?thesis by (simp add: f)
qed

section \<open>Properties of the value codec\<close>

lemma formats_iff:
  "f \<in> set formats \<longleftrightarrow>
     f = ascii ''bool'' \<or> f = ascii ''uint8'' \<or> f = ascii ''uint16'' \<or> f = ascii ''uint32'' \<or>
     f = ascii ''uint64'' \<or> f = ascii ''int'' \<or> f = ascii ''float'' \<or> f = ascii ''string'' \<or>
     f = ascii ''data''"
  by (simp add: formats_def)

lemma bufferToValue_simps:
  "bufferToValue b (ascii ''bool'') = map_sum id (\<lambda>n. JBool (n \<noteq> Finite 0)) (readUInt8 b 0)"
  "bufferToValue b (ascii ''uint8'') = map_sum id JNumber (readUInt8 b 0)"
  "bufferToValue b (ascii ''uint16'') = map_sum id JNumber (readUInt16LE b 0)"
  "bufferToValue b (ascii ''uint32'') = map_sum id JNumber (readUInt32LE b 0)"
  "bufferToValue b (ascii ''uint64'') =
     (case readUInt32LE b 0 of
        Inl e \<Rightarrow> Inl e
      | Inr lo \<Rightarrow>
          if truthy (JNumber lo) then Inr (JNumber lo)
          else map_sum id (\<lambda>hi. JNumber (js_shl hi (Finite 32))) (readUInt32LE b 4))"
  "bufferToValue b (ascii ''int'') = map_sum id JNumber (readInt32LE b 0)"
  "bufferToValue b (ascii ''float'') = map_sum id JNumber (readFloatLE b 0)"
  "bufferToValue b (ascii ''string'') = Inr (JString (toString_utf8 b))"
  "bufferToValue b (ascii ''data'') = Inr (JString (toString_base64 b))"
  by (simp_all add: bufferToValue_def ascii_def)

lemma bufferToValue_unknown:
  "f \<notin> set formats \<Longrightarrow> bufferToValue b f = Inl (UnknownFormat f)"
  by (simp add: formats_iff bufferToValue_def)

lemma valueToBuffer_simps:
  "valueToBuffer S v (ascii ''bool'') = Inr (JBuffer [if truthy v then 1 else 0])"
  "valueToBuffer S v (ascii ''uint8'') =
     Inr (JBuffer [word_of_int (to_integer (js_and (ToNumber S v) (Finite 0xFF)))])"
  "valueToBuffer S v (ascii ''uint16'') =
     map_sum id JBuffer (writeUInt16LE (Buffer_alloc 2) (ToNumber S v) 0)"
  "valueToBuffer S v (ascii ''uint32'') =
     map_sum id JBuffer (writeUInt32LE (Buffer_alloc 4) (ToNumber S v) 0)"
  "valueToBuffer S v (ascii ''uint64'') =
     (case writeUInt32LE (Buffer_alloc 8) (js_and (ToNumber S v) (Finite 0xFFFFFFFF)) 0 of
        Inl e \<Rightarrow> Inl e
      | Inr b \<Rightarrow> map_sum id JBuffer (writeUInt32LE b (js_sar (ToNumber S v) (Finite 32)) 4))"
  "valueToBuffer S v (ascii ''int'') =
     map_sum id JBuffer (writeInt32LE (Buffer_alloc 4) (ToNumber S v) 0)"
  "valueToBuffer S v (ascii ''float'') =
     map_sum id JBuffer (writeFloatLE (Buffer_alloc 4) (ToNumber S v) 0)"
  "valueToBuffer S v (ascii ''string'') = map_sum id JBuffer (Buffer_from v)"
  "valueToBuffer S v (ascii ''data'') =
     (case v of JString s \<Rightarrow> Inr (JBuffer (Buffer_from_base64 s)) | _ \<Rightarrow> Inr v)"
  by (simp_all add: valueToBuffer_def ascii_def)

lemma valueToBuffer_unknown:
  "f \<notin> set formats \<Longrightarrow> valueToBuffer S v f = Inl (UnknownFormat f)"
  by (simp add: formats_iff valueToBuffer_def)

lemma bytes_read_simps:
  "bytes_read (ascii ''bool'') b = 1"
  "bytes_read (ascii ''uint8'') b = 1"
  "bytes_read (ascii ''uint16'') b = 2"
  "bytes_read (ascii ''uint32'') b = 4"
  "bytes_read (ascii ''uint64'') b = (if 4 \<le> length b \<and> le_nat (take 4 b) = 0 then 8 else 4)"
  "bytes_read (ascii ''int'') b = 4"
  "bytes_read (ascii ''float'') b = 4"
  "bytes_read (ascii ''string'') b = 0"
  "bytes_read (ascii ''data'') b = 0"
  by (simp_all add: bytes_read_def ascii_def)

lemma read_le_Inl: "read_le n b 0 = Inl e \<longleftrightarrow> e = RangeError \<and> length b < n"
  by (auto simp: read_le_def)

lemma read_le_Inr: "n \<le> length b \<Longrightarrow> read_le n b 0 = Inr (le_nat (take n b))"
  by (simp add: read_le_def)

lemma map_sum_Inl: "map_sum id f x = Inl e \<longleftrightarrow> x = Inl e"
  by (cases x) simp_all

lemma bufferToValue_fails_iff:
  assumes "f \<in> set formats"
  shows "bufferToValue b f = Inl e \<longleftrightarrow> e = RangeError \<and> length b < bytes_read f b"
proof -
  consider "f = ascii ''bool''" | "f = ascii ''uint8''" | "f = ascii ''uint16''"
    | "f = ascii ''uint32''" | "f = ascii ''uint64''" | "f = ascii ''int''"
    | "f = ascii ''float''" | "f = ascii ''string''" | "f = ascii ''data''"
    using assms unfolding formats_iff by blast
  then show ?thesis
  proof cases
    case 5
    show ?thesis
    proof (cases "length b < 4")
      case True
      then show ?thesis
        by (auto simp: 5 bufferToValue_simps bytes_read_simps readUInt32LE_def read_le_def)
    next
      case False
      then have lo: "readUInt32LE b 0 = Inr (Finite (of_nat (le_nat (take 4 b))))"
        by (simp add: readUInt32LE_def read_le_def)
      show ?thesis
        using False
        by (auto simp: 5 bufferToValue_simps bytes_read_simps lo map_sum_Inl
            readUInt32LE_def read_le_def)
    qed
  qed (auto simp: bufferToValue_simps bytes_read_simps map_sum_Inl read_le_Inl
      readUInt8_def readUInt16LE_def readUInt32LE_def readInt32LE_def readFloatLE_def)
qed

text \<open>
  C6, as amended: \<^verbatim>\<open>bufferToValue\<close> and \<^verbatim>\<open>valueToBuffer\<close> fail with the error that names
  the format exactly when the format is none of the nine they know. For a format it
  knows, \<^verbatim>\<open>bufferToValue\<close> fails exactly when the buffer is shorter than the bytes it
  reads, with the platform's \<^verbatim>\<open>RangeError\<close>.
\<close>

theorem codec_error_conditions:
  "(bufferToValue b f = Inl (UnknownFormat g) \<longleftrightarrow> f \<notin> set formats \<and> g = f) \<and>
   (valueToBuffer S v f = Inl (UnknownFormat g) \<longleftrightarrow> f \<notin> set formats \<and> g = f) \<and>
   (f \<in> set formats \<longrightarrow>
      (\<forall>e. bufferToValue b f = Inl e \<longleftrightarrow> e = RangeError \<and> length b < bytes_read f b))"
proof (intro conjI impI allI)
  show "bufferToValue b f = Inl (UnknownFormat g) \<longleftrightarrow> f \<notin> set formats \<and> g = f"
    using bufferToValue_fails_iff [of f b "UnknownFormat g"] bufferToValue_unknown [of f b]
    by (cases "f \<in> set formats") auto
  show "valueToBuffer S v f = Inl (UnknownFormat g) \<longleftrightarrow> f \<notin> set formats \<and> g = f"
  proof (cases "f \<in> set formats")
    case False
    then show ?thesis by (auto simp: valueToBuffer_unknown)
  next
    case True
    then consider "f = ascii ''bool''" | "f = ascii ''uint8''" | "f = ascii ''uint16''"
      | "f = ascii ''uint32''" | "f = ascii ''uint64''" | "f = ascii ''int''"
      | "f = ascii ''float''" | "f = ascii ''string''" | "f = ascii ''data''"
      unfolding formats_iff by blast
    then have "valueToBuffer S v f \<noteq> Inl (UnknownFormat g)"
    proof cases
      case 8
      show ?thesis by (cases v) (simp_all add: 8 valueToBuffer_simps)
    next
      case 9
      show ?thesis by (cases v) (simp_all add: 9 valueToBuffer_simps)
    qed (auto simp: valueToBuffer_simps map_sum_Inl writeUInt16LE_def writeUInt32LE_def
        writeInt32LE_def writeFloatLE_def write_le_def store_def split: sum.splits if_splits)
    with True show ?thesis by simp
  qed
  fix e
  assume "f \<in> set formats"
  then show "bufferToValue b f = Inl e \<longleftrightarrow> e = RangeError \<and> length b < bytes_read f b"
    by (rule bufferToValue_fails_iff)
qed

lemma uint8_in_formats: "ascii ''uint8'' \<in> set formats" and x_notin_formats: "ascii ''unknown'' \<notin> set formats"
  by (simp_all add: formats_def ascii_def)

theorem codec_error_conditions_witness:
  "ascii ''uint8'' \<in> set formats \<and>
   (\<forall>e. bufferToValue [7] (ascii ''uint8'') \<noteq> Inl e) \<and>
   bufferToValue [] (ascii ''uint8'') = Inl RangeError \<and>
   bufferToValue [7] (ascii ''unknown'') = Inl (UnknownFormat (ascii ''unknown'')) \<and>
   valueToBuffer (\<lambda>s. NaN) (JNumber (Finite 1)) (ascii ''unknown'') = Inl (UnknownFormat (ascii ''unknown''))"
  using codec_error_conditions [of "[7]" "ascii ''uint8''" _ "\<lambda>s. NaN" "JNumber (Finite 1)"]
    codec_error_conditions [of "[]" "ascii ''uint8''" _ "\<lambda>s. NaN" "JNumber (Finite 1)"]
    codec_error_conditions [of "[7]" "ascii ''unknown''" "ascii ''unknown''" "\<lambda>s. NaN" "JNumber (Finite 1)"]
  by (simp add: uint8_in_formats x_notin_formats bytes_read_simps)

text \<open>
  C6 as stated fails: \<^verbatim>\<open>uint8\<close> is a known format, and decoding the empty buffer fails.
\<close>

theorem bufferToValue_short_buffer_counterexample:
  "ascii ''uint8'' \<in> set formats \<and> bufferToValue [] (ascii ''uint8'') = Inl RangeError"
  by (simp add: uint8_in_formats bufferToValue_simps readUInt8_def read_le_def)

text \<open>
  C3: with a low word of zero, \<^verbatim>\<open>bufferToValue\<close> computes \<^verbatim>\<open>readUInt32LE(4) << 32\<close>. A
  shift count of 32 is a shift by 0 in JavaScript, and the result is a signed 32-bit
  integer: the high word 1 decodes to 1, not to \<open>2^32\<close>, and the high word
  \<^verbatim>\<open>0xFFFFFFFF\<close> to \<open>-1\<close>. A low word that is not zero is returned as it is.
\<close>

theorem bufferToValue_uint64_high_word:
  "bufferToValue [0, 0, 0, 0, 1, 0, 0, 0] (ascii ''uint64'') = Inr (JNumber (Finite 1)) \<and>
   bufferToValue [0, 0, 0, 0, 0xFF, 0xFF, 0xFF, 0xFF] (ascii ''uint64'') = Inr (JNumber (Finite (- 1))) \<and>
   bufferToValue [5, 0, 0, 0, 1, 0, 0, 0] (ascii ''uint64'') = Inr (JNumber (Finite 5))"
  by (simp add: bufferToValue_simps readUInt32LE_def read_le_def js_shl_def ToInt32_def
      ToUint32_def to_int32_def js_truncate_def)

text \<open>
  C7: \<^verbatim>\<open>valueToBuffer\<close> writes \<^verbatim>\<open>value >> 32\<close> to bytes 4 to 7, which is
  \<^verbatim>\<open>value >> 0\<close>, the low 32 bits again: for the value 1 the high word is 1, not 0, and
  for \<open>2^32\<close> it is 0, not 1. \<^verbatim>\<open>value & 0xffffffff\<close> is a signed 32-bit integer, so a
  value with bit 31 set makes \<^verbatim>\<open>writeUInt32LE\<close> throw.
\<close>

theorem valueToBuffer_uint64_high_word:
  "valueToBuffer S (JNumber (Finite 1)) (ascii ''uint64'') = Inr (JBuffer [1, 0, 0, 0, 1, 0, 0, 0]) \<and>
   valueToBuffer S (JNumber (Finite 4294967296)) (ascii ''uint64'') =
     Inr (JBuffer [0, 0, 0, 0, 0, 0, 0, 0]) \<and>
   valueToBuffer S (JNumber (Finite 2147483648)) (ascii ''uint64'') = Inl RangeError"
  by (simp add: valueToBuffer_simps writeUInt32LE_def write_le_def store_def js_and_def js_sar_def
      ToInt32_def ToUint32_def to_int32_def js_truncate_def Buffer_alloc_def eval_nat_numeral)

subsection \<open>Round trip: booleans and integers\<close>

lemma truncate_of_int [simp]: "js_truncate (of_int i) = i"
  by (simp add: js_truncate_def)

lemma truncate_of_nat [simp]: "js_truncate (of_nat n) = int n"
  using truncate_of_int [of "int n"] by simp

lemma truncate_numeral [simp]: "js_truncate (numeral k) = numeral k"
  using truncate_of_int [of "numeral k"] by simp

lemma length_le_bytes [simp]: "length (le_bytes k x) = k"
  by (induction k arbitrary: x) simp_all

lemma le_nat_le_bytes: "le_nat (le_bytes k x) = nat (x mod 256 ^ k)"
proof (induction k arbitrary: x)
  case 0
  show ?case by simp
next
  case (Suc k)
  have "unat (word_of_int x :: byte) = nat (x mod 256)"
    by (simp add: unat_eq_nat_uint uint_word_of_int)
  moreover have "x mod (256 * 256 ^ k) = 256 * (x div 256 mod 256 ^ k) + x mod 256"
    by (rule zmod_zmult2_eq) simp
  moreover have "0 \<le> x mod 256" "0 \<le> x div 256 mod 256 ^ k" by simp_all
  ultimately show ?case
    by (simp add: Suc.IH nat_add_distrib nat_mult_distrib)
qed

lemma store_alloc: "length bs = k \<Longrightarrow> store (Buffer_alloc k) 0 bs = Inr bs"
  by (simp add: store_def Buffer_alloc_def)

lemma write_le_bytes:
  "lo \<le> i \<Longrightarrow> i \<le> hi \<Longrightarrow>
   write_le k lo hi (Buffer_alloc k) (Finite (of_int i)) 0 = Inr (le_bytes k i)"
  by (simp add: write_le_def store_alloc)

lemma read_le_bytes: "read_le k (le_bytes k i) 0 = Inr (nat (i mod 256 ^ k))"
  by (simp add: read_le_def le_nat_le_bytes)

lemma roundtrip_bool: "roundtrip S (JBool b) (ascii ''bool'')"
  by (simp add: roundtrip_def valueToBuffer_simps bufferToValue_simps readUInt8_def read_le_def)

lemma to_int32_id: "- (2 ^ 31) \<le> i \<Longrightarrow> i < 2 ^ 31 \<Longrightarrow> to_int32 i = i"
  by (simp add: to_int32_def)

lemma roundtrip_uint8:
  assumes "n < 2 ^ 8"
  shows "roundtrip S (JNumber (Finite (of_nat n))) (ascii ''uint8'')"
proof -
  have "(255 :: int) = mask 8" by (simp add: mask_eq_exp_minus_1)
  then have "int n AND 255 = take_bit 8 (int n)" by (simp only: take_bit_eq_mask)
  also have "\<dots> = int n mod 2 ^ 8" by (simp only: take_bit_eq_mod)
  also have "\<dots> = int n" using assms by simp
  finally have a: "int n AND 255 = int n" .
  have "to_int32 (int n) = int n" using assms by (simp add: to_int32_id)
  then have "js_and (Finite (of_nat n)) (Finite 0xFF) = Finite (of_nat n)"
    using a by (simp add: js_and_def ToInt32_def to_int32_id)
  moreover have "unat (word_of_int (int n) :: byte) = n"
    using assms unat_of_nat [of n, where 'a = 8] by simp
  ultimately show ?thesis
    by (simp add: roundtrip_def valueToBuffer_simps bufferToValue_simps readUInt8_def read_le_def)
qed

lemma roundtrip_uint16:
  assumes "n < 2 ^ 16"
  shows "roundtrip S (JNumber (Finite (of_nat n))) (ascii ''uint16'')"
proof -
  have "write_le 2 0 0xFFFF (Buffer_alloc 2) (Finite (of_nat n)) 0 = Inr (le_bytes 2 (int n))"
    using assms write_le_bytes [of 0 "int n" "0xFFFF" 2] by simp
  moreover have "read_le 2 (le_bytes 2 (int n)) 0 = Inr n"
    using assms read_le_bytes [of 2 "int n"] by simp
  ultimately show ?thesis
    by (simp add: roundtrip_def valueToBuffer_simps bufferToValue_simps writeUInt16LE_def
        readUInt16LE_def)
qed

lemma roundtrip_uint32:
  assumes "n < 2 ^ 32"
  shows "roundtrip S (JNumber (Finite (of_nat n))) (ascii ''uint32'')"
proof -
  have "write_le 4 0 0xFFFFFFFF (Buffer_alloc 4) (Finite (of_nat n)) 0 = Inr (le_bytes 4 (int n))"
    using assms write_le_bytes [of 0 "int n" "0xFFFFFFFF" 4] by simp
  moreover have "read_le 4 (le_bytes 4 (int n)) 0 = Inr n"
    using assms read_le_bytes [of 4 "int n"] by simp
  ultimately show ?thesis
    by (simp add: roundtrip_def valueToBuffer_simps bufferToValue_simps writeUInt32LE_def
        readUInt32LE_def)
qed

lemma roundtrip_int:
  assumes "- (2 ^ 31) \<le> i" and "i < 2 ^ 31"
  shows "roundtrip S (JNumber (Finite (of_int i))) (ascii ''int'')"
proof -
  have "write_le 4 (- 0x80000000) 0x7FFFFFFF (Buffer_alloc 4) (Finite (of_int i)) 0 = Inr (le_bytes 4 i)"
    using assms write_le_bytes [of "- 0x80000000" i "0x7FFFFFFF" 4] by simp
  moreover have "read_le 4 (le_bytes 4 i) 0 = Inr (nat (i mod 4294967296))"
    using read_le_bytes [of 4 i] by simp
  moreover have "to_int32 (i mod 4294967296) = i"
  proof (cases "0 \<le> i")
    case True
    then show ?thesis using assms by (simp add: to_int32_def)
  next
    case False
    have "i mod 4294967296 = (i + 4294967296) mod 4294967296" by simp
    also have "\<dots> = i + 4294967296"
      using assms False by (intro mod_pos_pos_trivial) simp_all
    finally have "i mod 4294967296 = i + 4294967296" .
    moreover have "(i + 6442450944) mod 4294967296 = i + 2147483648"
    proof -
      have "(i + 6442450944) mod 4294967296 = (i + 2147483648 + 4294967296) mod 4294967296"
        by (simp add: algebra_simps)
      also have "\<dots> = (i + 2147483648) mod 4294967296" by (simp only: mod_add_self2)
      also have "\<dots> = i + 2147483648"
        using assms by (intro mod_pos_pos_trivial) simp_all
      finally show ?thesis .
    qed
    ultimately show ?thesis by (simp add: to_int32_def algebra_simps)
  qed
  ultimately show ?thesis
    by (simp add: roundtrip_def valueToBuffer_simps bufferToValue_simps writeInt32LE_def
        readInt32LE_def)
qed

subsection \<open>Round trip: single-precision numbers\<close>

text \<open>
  Rounding a number that a finite single denotes gives that single back: the search finds
  its exponent, the quotient is its significand, and nothing is rounded off.
\<close>

lemma f32_exponent_eq:
  assumes "1 \<le> E" and "E \<le> n" and "a * 2 ^ 127 < 2 ^ Suc E"
    and "E = 1 \<or> 2 ^ E \<le> a * 2 ^ 127"
  shows "f32_exponent a n = E"
  using assms(2)
proof (induction n)
  case 0
  with assms(1) show ?case by simp
next
  case (Suc n)
  show ?case
  proof (cases "E = Suc n")
    case True
    then show ?thesis using assms(4) by auto
  next
    case False
    with Suc.prems have le: "E \<le> n" by simp
    then have "Suc E \<le> Suc n" by simp
    then have "(2::rat) ^ Suc E \<le> 2 ^ Suc n" by (intro power_increasing) simp_all
    with assms(3) have "\<not> 2 ^ Suc n \<le> a * 2 ^ 127" by linarith
    moreover have "n \<noteq> 0" using le assms(1) by simp
    ultimately show ?thesis using Suc.IH [OF le] by simp
  qed
qed

lemma round_half_even_of_nat: "round_half_even (of_nat M) = M"
  by (simp add: round_half_even_def)

lemma f32_magnitude_exact:
  assumes "1 \<le> E" and "E \<le> 254" and "M < 2 ^ 24" and "E = 1 \<or> 2 ^ 23 \<le> M"
  shows "f32_magnitude (of_nat (M * 2 ^ E) / 2 ^ 150) = (E - 1) * 2 ^ 23 + M"
proof -
  let ?a = "of_nat (M * 2 ^ E) / 2 ^ 150 :: rat"
  have a127: "?a * 2 ^ 127 = of_nat M * 2 ^ E / 2 ^ 23" by simp
  have "of_nat M * (2::rat) ^ E < 2 ^ 24 * 2 ^ E"
    using assms(3) by (simp add: of_nat_less_iff [of M "2 ^ 24", where 'a = rat, simplified])
  then have up: "?a * 2 ^ 127 < 2 ^ Suc E" unfolding a127 by (simp add: field_simps)
  have lo: "E = 1 \<or> 2 ^ E \<le> ?a * 2 ^ 127"
  proof (cases "E = 1")
    case False
    with assms(4) have "2 ^ 23 \<le> M" by simp
    then have "(2::rat) ^ 23 \<le> of_nat M"
      using of_nat_le_iff [of "2 ^ 23" M, where 'a = rat] by simp
    then have "(2::rat) ^ 23 * 2 ^ E \<le> of_nat M * 2 ^ E" by (intro mult_right_mono) simp_all
    then show ?thesis unfolding a127 by (simp add: field_simps)
  qed simp
  have e: "f32_exponent ?a 254 = E" using assms(1,2) up lo by (rule f32_exponent_eq)
  have q: "?a * 2 ^ 150 / 2 ^ E = of_nat M" by simp
  have "(E - 1) * 2 ^ 23 + M < 255 * 2 ^ 23"
  proof -
    have "(E - 1) * 2 ^ 23 \<le> 253 * 2 ^ 23" using assms(2) by (intro mult_right_mono) simp_all
    with assms(3) show ?thesis by simp
  qed
  then show ?thesis
    unfolding f32_magnitude_def e Let_def q round_half_even_of_nat by simp
qed

lemma f32_fields:
  fixes w :: "32 word"
  defines "n \<equiv> unat w"
  shows "n = (n div 2 ^ 31) * 2 ^ 31 + (n div 2 ^ 23 mod 256) * 2 ^ 23 + n mod 2 ^ 23"
    and "n div 2 ^ 31 \<le> 1"
proof -
  have "n < 2 ^ 32" unfolding n_def using unsigned_less [of w, where 'a = nat] by simp
  then show "n div 2 ^ 31 \<le> 1" by simp
  define d where "d = n div 2 ^ 23"
  define s where "s = n div 2 ^ 31"
  define e where "e = d mod 256"
  define m where "m = n mod 2 ^ 23"
  have "d div 256 = s" unfolding d_def s_def by (simp add: div_mult2_eq [symmetric])
  then have d: "d = s * 256 + e"
    using div_mult_mod_eq [of d 256] unfolding e_def by simp
  have "n = d * 2 ^ 23 + m" unfolding d_def m_def by simp
  then have "n = s * 2 ^ 31 + e * 2 ^ 23 + m" unfolding d by (simp add: algebra_simps)
  then show "n = (n div 2 ^ 31) * 2 ^ 31 + (n div 2 ^ 23 mod 256) * 2 ^ 23 + n mod 2 ^ 23"
    unfolding s_def e_def d_def m_def .
qed

lemma f32_value_fields:
  fixes w :: "32 word"
  assumes "s = unat w div 2 ^ 31" and "e = unat w div 2 ^ 23 mod 256" and "m = unat w mod 2 ^ 23"
    and "e \<noteq> 255"
  shows "f32_value w =
     (if e = 0 \<and> m = 0 then (if s = 1 then NegZero else Finite 0)
      else Finite (if s = 1 then - (of_nat ((if e = 0 then m else 2 ^ 23 + m) * 2 ^ max e 1) / 2 ^ 150)
                   else of_nat ((if e = 0 then m else 2 ^ 23 + m) * 2 ^ max e 1) / 2 ^ 150))"
  unfolding f32_value_def Let_def assms(1,2,3) [symmetric] using assms(4) by simp

lemma f32_magnitude_0: "f32_magnitude 0 = 0"
  using f32_magnitude_exact [of 1 0] by simp

lemma f32_bits_pos: "0 < a \<Longrightarrow> f32_bits (Finite a) = of_nat (f32_magnitude a)"
  by simp

lemma f32_bits_neg: "0 < a \<Longrightarrow> f32_bits (Finite (- a)) = of_nat (2 ^ 31 + f32_magnitude a)"
  by simp

lemma f32_bits_value:
  assumes "f32_finite w"
  shows "f32_bits (f32_value w) = w"
proof -
  define n where "n = unat w"
  define s where "s = n div 2 ^ 31"
  define e where "e = n div 2 ^ 23 mod 256"
  define m where "m = n mod 2 ^ 23"
  have n: "n = s * 2 ^ 31 + e * 2 ^ 23 + m" and s: "s \<le> 1"
    unfolding n_def s_def e_def m_def by (rule f32_fields)+
  have e255: "e \<noteq> 255" using assms unfolding f32_finite_def e_def n_def .
  have "e < 256" unfolding e_def by simp
  with e255 have e: "e < 255" by simp
  have m: "m < 2 ^ 23" unfolding m_def by simp
  have w: "of_nat n = w" unfolding n_def by simp
  note val = f32_value_fields [OF s_def [unfolded n_def] e_def [unfolded n_def] m_def [unfolded n_def] e255]
  show ?thesis
  proof (cases "e = 0 \<and> m = 0")
    case True
    show ?thesis
    proof (cases "s = 1")
      case s1: True
      have "f32_bits (f32_value w) = 0x80000000" unfolding val using True s1 by simp
      also have "\<dots> = of_nat n" unfolding n using True s1 by simp
      finally show ?thesis unfolding w .
    next
      case False
      with s have s0: "s = 0" by simp
      have "f32_bits (f32_value w) = 0" unfolding val using True s0 by (simp add: f32_magnitude_0)
      also have "\<dots> = of_nat n" unfolding n using True s0 by simp
      finally show ?thesis unfolding w .
    qed
  next
    case False
    define M where "M = (if e = 0 then m else 2 ^ 23 + m)"
    define E where "E = max e 1"
    define a :: rat where "a = of_nat (M * 2 ^ E) / 2 ^ 150"
    have "0 < M" using False by (auto simp: M_def)
    then have pos: "0 < a" by (simp add: a_def)
    have "f32_magnitude a = (E - 1) * 2 ^ 23 + M"
      unfolding a_def
    proof (rule f32_magnitude_exact)
      show "1 \<le> E" by (simp add: E_def)
      show "E \<le> 254" using e by (simp add: E_def)
      show "M < 2 ^ 24" using m by (simp add: M_def)
      show "E = 1 \<or> 2 ^ 23 \<le> M" by (auto simp: E_def M_def max_def)
    qed
    also have "\<dots> = e * 2 ^ 23 + m"
    proof (cases "e = 0")
      case True
      then show ?thesis by (simp add: E_def M_def)
    next
      case False
      then obtain k where "e = Suc k" by (cases e) simp_all
      then show ?thesis by (simp add: E_def M_def)
    qed
    finally have mag: "f32_magnitude a = e * 2 ^ 23 + m" .
    have v: "f32_value w = Finite (if s = 1 then - a else a)"
      unfolding val a_def M_def E_def using False by simp
    show ?thesis
    proof (cases "s = 1")
      case True
      have "f32_bits (f32_value w) = of_nat (2 ^ 31 + f32_magnitude a)"
        unfolding v using True f32_bits_neg [OF pos] by simp
      also have "\<dots> = of_nat n" unfolding n mag using True by (simp only: mult_1 add.assoc)
      finally show ?thesis unfolding w .
    next
      case False
      with s have s0: "s = 0" by simp
      have "f32_bits (f32_value w) = of_nat (f32_magnitude a)"
        unfolding v using s0 f32_bits_pos [OF pos] by simp
      also have "\<dots> = of_nat n" unfolding n mag using s0 by (simp only: mult_0 add_0)
      finally show ?thesis unfolding w .
    qed
  qed
qed

lemma le_bytes_uint32: "le_nat (le_bytes 4 (uint (w :: 32 word))) = unat w"
proof -
  have "uint w < 2 ^ 32" using uint_bounded [of w] by simp
  then have "uint w mod 256 ^ 4 = uint w"
    by (intro mod_pos_pos_trivial) simp_all
  then show ?thesis by (simp only: le_nat_le_bytes unat_eq_nat_uint)
qed

lemma roundtrip_float:
  assumes "f32_finite w"
  shows "roundtrip S (JNumber (f32_value w)) (ascii ''float'')"
proof -
  have "writeFloatLE (Buffer_alloc 4) (f32_value w) 0 = Inr (le_bytes 4 (uint w))"
    by (simp add: writeFloatLE_def store_alloc f32_bits_value [OF assms])
  moreover have "readFloatLE (le_bytes 4 (uint w)) 0 = Inr (f32_value w)"
    by (simp add: readFloatLE_def read_le_def le_bytes_uint32)
  ultimately show ?thesis
    by (simp add: roundtrip_def valueToBuffer_simps bufferToValue_simps)
qed

subsection \<open>Round trip: strings\<close>

lemma utf8_dec_1: "b0 < 0x80 \<Longrightarrow> utf8_dec (b0 # r) = b0 # utf8_dec r"
  by simp

lemma utf8_dec_2:
  "0xC2 \<le> b0 \<Longrightarrow> b0 \<le> 0xDF \<Longrightarrow> continuation b1 \<Longrightarrow>
   utf8_dec (b0 # b1 # r) = ((b0 - 0xC0) * 64 + (b1 - 0x80)) # utf8_dec r"
  by simp

lemma utf8_dec_3:
  "0xE0 \<le> b0 \<Longrightarrow> b0 \<le> 0xEF \<Longrightarrow> second_ok b0 b1 \<Longrightarrow> continuation b2 \<Longrightarrow>
   utf8_dec (b0 # b1 # b2 # r) = ((b0 - 0xE0) * 4096 + (b1 - 0x80) * 64 + (b2 - 0x80)) # utf8_dec r"
  by simp

lemma utf8_dec_4:
  "0xF0 \<le> b0 \<Longrightarrow> b0 \<le> 0xF4 \<Longrightarrow> second_ok b0 b1 \<Longrightarrow> continuation b2 \<Longrightarrow>
   continuation b3 \<Longrightarrow>
   utf8_dec (b0 # b1 # b2 # b3 # r) =
     ((b0 - 0xF0) * 262144 + (b1 - 0x80) * 4096 + (b2 - 0x80) * 64 + (b3 - 0x80)) # utf8_dec r"
  by simp

declare utf8_dec.simps [simp del]

lemma continuation_mod: "continuation (0x80 + x mod 64)"
proof -
  have "x mod 64 < 64" by simp
  then show ?thesis unfolding continuation_def by simp
qed

lemma digits3:
  fixes c :: nat
  shows "c div 4096 * 4096 + c div 64 mod 64 * 64 + c mod 64 = c"
proof -
  define q where "q = c div 64"
  define x where "x = q div 64"
  define y where "y = q mod 64"
  define z where "z = c mod 64"
  have x: "c div 4096 = x" unfolding x_def q_def by (simp add: div_mult2_eq [symmetric])
  have q: "q = x * 64 + y" unfolding x_def y_def by simp
  have "c = q * 64 + z" unfolding q_def z_def by simp
  then have "c = x * 4096 + y * 64 + z" unfolding q by (simp add: algebra_simps)
  then show ?thesis unfolding x y_def [symmetric] z_def [symmetric] q_def [symmetric] by simp
qed

lemma digits4:
  fixes c :: nat
  shows "c div 262144 * 262144 + c div 4096 mod 64 * 4096 + c div 64 mod 64 * 64 + c mod 64 = c"
proof -
  define p where "p = c div 4096"
  have "c div 262144 = p div 64" unfolding p_def by (simp add: div_mult2_eq [symmetric])
  then have "c div 262144 * 64 + p mod 64 = p" by simp
  then have "c div 262144 * 262144 + p mod 64 * 4096 = p * 4096" by (simp add: algebra_simps)
  moreover have "p * 4096 + c div 64 mod 64 * 64 + c mod 64 = c"
    unfolding p_def by (rule digits3)
  ultimately show ?thesis unfolding p_def by simp
qed

lemma utf8_enc_dec_2:
  assumes "0x80 \<le> c" and "c < 0x800"
  shows "utf8_dec ([0xC0 + c div 64, 0x80 + c mod 64] @ r) = c # utf8_dec r"
proof -
  have d: "2 \<le> c div 64" "c div 64 \<le> 31" using assms by simp_all
  have "utf8_dec ((0xC0 + c div 64) # (0x80 + c mod 64) # r) =
      ((0xC0 + c div 64 - 0xC0) * 64 + (0x80 + c mod 64 - 0x80)) # utf8_dec r"
    using d by (intro utf8_dec_2 continuation_mod) simp_all
  then show ?thesis by simp
qed

lemma utf8_enc_dec_3:
  assumes "0x800 \<le> c" and "c < 0x10000" and "c < 0xD800 \<or> 0xE000 \<le> c"
  shows "utf8_dec ([0xE0 + c div 4096, 0x80 + c div 64 mod 64, 0x80 + c mod 64] @ r) =
     c # utf8_dec r"
proof -
  define x where "x = c div 4096"
  define y where "y = c div 64 mod 64"
  define z where "z = c mod 64"
  have c: "x * 4096 + y * 64 + z = c" unfolding x_def y_def z_def by (rule digits3)
  have y: "y < 64" and z: "z < 64" unfolding y_def z_def by simp_all
  have x: "x \<le> 15" using assms(2) unfolding x_def by simp
  have "x = 0 \<Longrightarrow> 32 \<le> y" using c z assms(1) by arith
  moreover have "x = 13 \<Longrightarrow> y \<le> 31" using c y z assms(3) by arith
  ultimately have s: "second_ok (0xE0 + x) (0x80 + y)"
    using x y unfolding second_ok_def by auto
  have "utf8_dec ((0xE0 + x) # (0x80 + y) # (0x80 + z) # r) =
      ((0xE0 + x - 0xE0) * 4096 + (0x80 + y - 0x80) * 64 + (0x80 + z - 0x80)) # utf8_dec r"
    using x s unfolding z_def by (intro utf8_dec_3 continuation_mod) simp_all
  then show ?thesis using c unfolding x_def [symmetric] y_def [symmetric] z_def [symmetric] by simp
qed

lemma utf8_enc_dec_4:
  assumes "0x10000 \<le> c" and "c < 0x110000"
  shows "utf8_dec ([0xF0 + c div 262144, 0x80 + c div 4096 mod 64, 0x80 + c div 64 mod 64,
       0x80 + c mod 64] @ r) = c # utf8_dec r"
proof -
  define x where "x = c div 262144"
  define u where "u = c div 4096 mod 64"
  define y where "y = c div 64 mod 64"
  define z where "z = c mod 64"
  have c: "x * 262144 + u * 4096 + y * 64 + z = c" unfolding x_def u_def y_def z_def by (rule digits4)
  have u: "u < 64" and y: "y < 64" and z: "z < 64" unfolding u_def y_def z_def by simp_all
  have x: "x \<le> 4" using assms(2) unfolding x_def by simp
  have "x = 0 \<Longrightarrow> 16 \<le> u" using c y z assms(1) by arith
  moreover have "x = 4 \<Longrightarrow> u \<le> 15" using c assms(2) by arith
  ultimately have s: "second_ok (0xF0 + x) (0x80 + u)"
    using x u unfolding second_ok_def by auto
  have "utf8_dec ((0xF0 + x) # (0x80 + u) # (0x80 + y) # (0x80 + z) # r) =
      ((0xF0 + x - 0xF0) * 262144 + (0x80 + u - 0x80) * 4096 + (0x80 + y - 0x80) * 64 +
       (0x80 + z - 0x80)) # utf8_dec r"
    using x s unfolding z_def y_def by (intro utf8_dec_4 continuation_mod) simp_all
  then show ?thesis
    using c unfolding x_def [symmetric] u_def [symmetric] y_def [symmetric] z_def [symmetric]
    by simp
qed

lemma utf8_enc_dec_cp:
  assumes "scalar_value c"
  shows "utf8_dec (utf8_enc_cp c @ r) = c # utf8_dec r"
proof -
  have ns: "c < 0xD800 \<or> 0xE000 \<le> c" and lt: "c < 0x110000"
    using assms unfolding scalar_value_def high_surrogate_def low_surrogate_def by linarith+
  consider "c < 0x80" | "0x80 \<le> c" "c < 0x800" | "0x800 \<le> c" "c < 0x10000"
    | "0x10000 \<le> c" "c < 0x110000"
    using lt by linarith
  then show ?thesis
  proof cases
    case 1
    then show ?thesis by (simp add: utf8_enc_cp_def utf8_dec_1)
  next
    case 2
    then show ?thesis using utf8_enc_dec_2 [of c r] by (simp add: utf8_enc_cp_def)
  next
    case 3
    then show ?thesis using utf8_enc_dec_3 [of c r] ns by (simp add: utf8_enc_cp_def)
  next
    case 4
    then show ?thesis using utf8_enc_dec_4 [of c r] by (simp add: utf8_enc_cp_def)
  qed
qed

lemma utf8_enc_dec:
  "list_all scalar_value cs \<Longrightarrow> utf8_dec (concat (map utf8_enc_cp cs)) = cs"
  by (induction cs) (simp_all add: utf8_enc_dec_cp utf8_dec.simps(1))

lemma utf16_pair:
  assumes "high_surrogate c" and "low_surrogate d"
  shows "scalar_value (0x10000 + (c - 0xD800) * 1024 + (d - 0xDC00))"
    and "utf16_enc_cp (0x10000 + (c - 0xD800) * 1024 + (d - 0xDC00)) = [c, d]"
proof -
  define h where "h = c - 0xD800"
  define l where "l = d - 0xDC00"
  have h: "h < 1024" "c = 0xD800 + h" and l: "l < 1024" "d = 0xDC00 + l"
    using assms unfolding high_surrogate_def low_surrogate_def h_def l_def by auto
  have "(h * 1024 + l) div 1024 = h" "(h * 1024 + l) mod 1024 = l" using l(1) by simp_all
  then show "utf16_enc_cp (0x10000 + (c - 0xD800) * 1024 + (d - 0xDC00)) = [c, d]"
    unfolding h_def [symmetric] l_def [symmetric] h(2) l(2) by (simp add: utf16_enc_cp_def)
  have "h * 1024 + l < 1048576" using h(1) l(1) by simp
  then show "scalar_value (0x10000 + (c - 0xD800) * 1024 + (d - 0xDC00))"
    unfolding h_def [symmetric] l_def [symmetric]
    by (simp add: scalar_value_def high_surrogate_def low_surrogate_def)
qed

lemma utf16_single:
  assumes "\<not> high_surrogate c" and "\<not> low_surrogate c" and "c < 65536"
  shows "scalar_value c" and "utf16_enc_cp c = [c]"
  using assms by (simp_all add: scalar_value_def utf16_enc_cp_def)

lemma utf16_dec_enc:
  "well_formed_units us \<Longrightarrow> list_all (\<lambda>u. u < 65536) us \<Longrightarrow>
   list_all scalar_value (utf16_dec us) \<and> concat (map utf16_enc_cp (utf16_dec us)) = us"
proof (induction us rule: utf16_dec.induct)
  case 1
  show ?case by simp
next
  case (2 c)
  then show ?case by (simp add: utf16_single)
next
  case (3 c d us)
  show ?case
  proof (cases "high_surrogate c")
    case True
    with "3.prems" have d: "low_surrogate d" and "well_formed_units us"
      and "list_all (\<lambda>u. u < 65536) us" by simp_all
    then have "list_all scalar_value (utf16_dec us) \<and> concat (map utf16_enc_cp (utf16_dec us)) = us"
      using "3.IH"(1) True by simp
    then show ?thesis using True d by (simp add: utf16_pair)
  next
    case False
    with "3.prems" have l: "\<not> low_surrogate c" and "well_formed_units (d # us)"
      and "list_all (\<lambda>u. u < 65536) (d # us)" and c: "c < 65536" by simp_all
    then have "list_all scalar_value (utf16_dec (d # us)) \<and>
        concat (map utf16_enc_cp (utf16_dec (d # us))) = d # us"
      using "3.IH"(4) False by simp
    then show ?thesis using False l c by (simp add: utf16_single)
  qed
qed

lemma utf8_enc_cp_bytes: "c < 0x110000 \<Longrightarrow> list_all (\<lambda>b. b < 256) (utf8_enc_cp c)"
proof -
  assume c: "c < 0x110000"
  have m: "c mod 64 < 64" "c div 64 mod 64 < 64" "c div 4096 mod 64 < 64" by simp_all
  have "c < 0x800 \<Longrightarrow> c div 64 < 32" "c < 0x10000 \<Longrightarrow> c div 4096 < 16" "c div 262144 < 5"
    using c by simp_all
  with m show ?thesis unfolding utf8_enc_cp_def by auto
qed

lemma map_unat_of_nat_bytes:
  "list_all (\<lambda>b. b < 256) bs \<Longrightarrow> map unat (map of_nat bs :: byte list) = bs"
  by (induction bs) (simp_all add: unat_of_nat)

lemma map_of_nat_unat: "map of_nat (map unat s) = (s :: 'a::len word list)"
  by (induction s) simp_all

lemma utf8_bytes_bound:
  "list_all scalar_value cs \<Longrightarrow> list_all (\<lambda>b. b < 256) (concat (map utf8_enc_cp cs))"
  by (induction cs) (simp_all add: utf8_enc_cp_bytes scalar_value_def)

lemma toString_Buffer_from_utf8:
  assumes "well_formed_utf16 s"
  shows "toString_utf8 (Buffer_from_utf8 s) = s"
proof -
  have "list_all (\<lambda>u. u < 65536) (map unat s)"
  proof -
    have "unat u < 65536" for u :: code_unit
      using unsigned_less [of u, where 'a = nat] by simp
    then show ?thesis by (simp add: list_all_iff)
  qed
  with assms have sc: "list_all scalar_value (utf16_dec (map unat s))"
    and eq: "concat (map utf16_enc_cp (utf16_dec (map unat s))) = map unat s"
    unfolding well_formed_utf16_def using utf16_dec_enc by blast+
  have "map unat (Buffer_from_utf8 s) = concat (map utf8_enc_cp (utf16_dec (map unat s)))"
    unfolding Buffer_from_utf8_def using sc by (intro map_unat_of_nat_bytes utf8_bytes_bound)
  then have "utf8_dec (map unat (Buffer_from_utf8 s)) = utf16_dec (map unat s)"
    using sc by (simp add: utf8_enc_dec)
  then show ?thesis unfolding toString_utf8_def by (simp only: eq map_of_nat_unat)
qed

lemma roundtrip_string:
  "well_formed_utf16 s \<Longrightarrow> roundtrip S (JString s) (ascii ''string'')"
  by (simp add: roundtrip_def valueToBuffer_simps bufferToValue_simps toString_Buffer_from_utf8)

subsection \<open>Round trip: base64 data\<close>

lemma std_base64_sextet:
  assumes "std_base64 c"
  shows "unbase64 c = Some (sextet c)" and "sextet c < 64" and "base64_char (sextet c) = c"
    and "c \<noteq> 0x3D"
proof -
  consider "0x41 \<le> c" "c \<le> 0x5A" | "0x61 \<le> c" "c \<le> 0x7A" | "0x30 \<le> c" "c \<le> 0x39"
    | "c = 0x2B" | "c = 0x2F"
    using assms unfolding std_base64_def by blast
  then have "unbase64 c = Some (sextet c) \<and> sextet c < 64 \<and> base64_char (sextet c) = c \<and> c \<noteq> 0x3D"
  proof cases
    case 1
    then show ?thesis by (simp add: sextet_def unbase64_def base64_char_def)
  next
    case 2
    then show ?thesis by (auto simp: sextet_def unbase64_def base64_char_def)
  next
    case 3
    then show ?thesis by (auto simp: sextet_def unbase64_def base64_char_def)
  next
    case 4
    then show ?thesis by (simp add: sextet_def unbase64_def base64_char_def)
  next
    case 5
    then show ?thesis by (simp add: sextet_def unbase64_def base64_char_def)
  qed
  then show "unbase64 c = Some (sextet c)" and "sextet c < 64" and "base64_char (sextet c) = c"
    and "c \<noteq> 0x3D" by simp_all
qed

lemma base64_dec_group:
  assumes "std_base64 a" and "std_base64 b" and "std_base64 c" and "std_base64 d"
  shows "base64_dec [] (a # b # c # d # cs) =
    base64_bytes [sextet a, sextet b, sextet c, sextet d] @ base64_dec [] cs"
  using assms by (simp add: std_base64_sextet)

lemma base64_dec_tail2:
  assumes "std_base64 a" and "std_base64 b"
  shows "base64_dec [] [a, b, 0x3D, 0x3D] = base64_bytes [sextet a, sextet b]"
  using assms by (simp add: std_base64_sextet)

lemma base64_dec_tail3:
  assumes "std_base64 a" and "std_base64 b" and "std_base64 c"
  shows "base64_dec [] [a, b, c, 0x3D] = base64_bytes [sextet a, sextet b, sextet c]"
  using assms by (simp add: std_base64_sextet)

declare base64_dec.simps [simp del]

lemma sextets_of_bytes:
  fixes s0 s1 s2 s3 :: nat
  assumes "s0 < 64" and "s1 < 64" and "s2 < 64" and "s3 < 64"
    and x_def: "x = s0 * 4 + s1 div 16" and y_def: "y = s1 mod 16 * 16 + s2 div 4"
    and z_def: "z = s2 mod 4 * 64 + s3"
  shows "x div 4 = s0" and "x mod 4 * 16 + y div 16 = s1" and "y mod 16 * 4 + z div 64 = s2"
    and "z mod 64 = s3" and "x < 256" and "y < 256" and "z < 256"
    and "x mod 4 = s1 div 16" and "y mod 16 = s2 div 4"
proof -
  have a: "s1 div 16 < 4" "s2 div 4 < 16" "s1 mod 16 < 16" "s2 mod 4 < 4"
    using assms(2,3) by simp_all
  show "x div 4 = s0" unfolding x_def using a(1) by simp
  show x4: "x mod 4 = s1 div 16" unfolding x_def using a(1) by simp
  moreover have "y div 16 = s1 mod 16" unfolding y_def using a(2) by simp
  ultimately show "x mod 4 * 16 + y div 16 = s1" by simp
  show y16: "y mod 16 = s2 div 4" unfolding y_def using a(2) by simp
  moreover have "z div 64 = s2 mod 4" unfolding z_def using assms(4) by simp
  ultimately show "y mod 16 * 4 + z div 64 = s2" by simp
  show "z mod 64 = s3" unfolding z_def using assms(4) by simp
  show "x < 256" unfolding x_def using assms(1) a(1) by simp
  show "y < 256" unfolding y_def using a(2,3) by simp
  show "z < 256" unfolding z_def using a(4) assms(4) by simp
qed

lemma base64_enc_bytes_group:
  assumes "std_base64 a" and "std_base64 b" and "std_base64 c" and "std_base64 d"
  shows "base64_enc (base64_bytes [sextet a, sextet b, sextet c, sextet d] @ bs) =
      a # b # c # d # base64_enc bs"
    and "list_all (\<lambda>x. x < 256) (base64_bytes [sextet a, sextet b, sextet c, sextet d])"
proof -
  define x where "x = sextet a * 4 + sextet b div 16"
  define y where "y = sextet b mod 16 * 16 + sextet c div 4"
  define z where "z = sextet c mod 4 * 64 + sextet d"
  note s = sextets_of_bytes [OF std_base64_sextet(2) [OF assms(1)] std_base64_sextet(2) [OF assms(2)]
      std_base64_sextet(2) [OF assms(3)] std_base64_sextet(2) [OF assms(4)] x_def y_def z_def]
  have bytes: "base64_bytes [sextet a, sextet b, sextet c, sextet d] = [x, y, z]"
    unfolding x_def y_def z_def by simp
  have "base64_enc ([x, y, z] @ bs) =
      [base64_char (x div 4), base64_char (x mod 4 * 16 + y div 16),
       base64_char (y mod 16 * 4 + z div 64), base64_char (z mod 64)] @ base64_enc bs"
    by simp
  then show "base64_enc (base64_bytes [sextet a, sextet b, sextet c, sextet d] @ bs) =
      a # b # c # d # base64_enc bs"
    unfolding bytes s(1,2,3,4) std_base64_sextet(3) [OF assms(1)] std_base64_sextet(3) [OF assms(2)]
      std_base64_sextet(3) [OF assms(3)] std_base64_sextet(3) [OF assms(4)] by simp
  show "list_all (\<lambda>x. x < 256) (base64_bytes [sextet a, sextet b, sextet c, sextet d])"
    unfolding bytes using s(5,6,7) by simp
qed

lemma base64_enc_bytes_tail2:
  assumes "std_base64 a" and "std_base64 b" and "sextet b mod 16 = 0"
  shows "base64_enc (base64_bytes [sextet a, sextet b]) = [a, b, 0x3D, 0x3D]"
    and "list_all (\<lambda>x. x < 256) (base64_bytes [sextet a, sextet b])"
proof -
  define x where "x = sextet a * 4 + sextet b div 16"
  have z: "(0::nat) < 64" by simp
  note s = sextets_of_bytes [OF std_base64_sextet(2) [OF assms(1)] std_base64_sextet(2) [OF assms(2)]
      z z x_def refl refl]
  have bytes: "base64_bytes [sextet a, sextet b] = [x]" unfolding x_def by simp
  have "sextet b div 16 * 16 = sextet b" using assms(3) by presburger
  then have "x mod 4 * 16 = sextet b" unfolding s(8) .
  moreover have "base64_enc [x] = [base64_char (x div 4), base64_char (x mod 4 * 16), 0x3D, 0x3D]"
    by simp
  ultimately show "base64_enc (base64_bytes [sextet a, sextet b]) = [a, b, 0x3D, 0x3D]"
    unfolding bytes s(1) by (simp add: std_base64_sextet(3) assms)
  show "list_all (\<lambda>x. x < 256) (base64_bytes [sextet a, sextet b])"
    unfolding bytes using s(5) by simp
qed

lemma base64_enc_bytes_tail3:
  assumes "std_base64 a" and "std_base64 b" and "std_base64 c" and "sextet c mod 4 = 0"
  shows "base64_enc (base64_bytes [sextet a, sextet b, sextet c]) = [a, b, c, 0x3D]"
    and "list_all (\<lambda>x. x < 256) (base64_bytes [sextet a, sextet b, sextet c])"
proof -
  define x where "x = sextet a * 4 + sextet b div 16"
  define y where "y = sextet b mod 16 * 16 + sextet c div 4"
  have z: "(0::nat) < 64" by simp
  note s = sextets_of_bytes [OF std_base64_sextet(2) [OF assms(1)] std_base64_sextet(2) [OF assms(2)]
      std_base64_sextet(2) [OF assms(3)] z x_def y_def refl]
  have bytes: "base64_bytes [sextet a, sextet b, sextet c] = [x, y]"
    unfolding x_def y_def by simp
  have "sextet c div 4 * 4 = sextet c" using assms(4) by presburger
  then have "y mod 16 * 4 = sextet c" unfolding s(9) .
  moreover have "base64_enc [x, y] =
      [base64_char (x div 4), base64_char (x mod 4 * 16 + y div 16), base64_char (y mod 16 * 4),
       0x3D]"
    by simp
  ultimately show "base64_enc (base64_bytes [sextet a, sextet b, sextet c]) = [a, b, c, 0x3D]"
    unfolding bytes s(1,2) by (simp add: std_base64_sextet(3) assms)
  show "list_all (\<lambda>x. x < 256) (base64_bytes [sextet a, sextet b, sextet c])"
    unfolding bytes using s(5,6) by simp
qed

declare base64_bytes.simps [simp del] base64_enc.simps [simp del]

lemma base64_dec_enc:
  "canonical_units cs \<Longrightarrow>
   base64_enc (base64_dec [] cs) = cs \<and> list_all (\<lambda>x. x < 256) (base64_dec [] cs)"
proof (induction cs rule: canonical_units.induct)
  case 1
  show ?case by (simp add: base64_dec.simps base64_bytes.simps base64_enc.simps)
next
  case (2 a b c d)
  then have ab: "std_base64 a" "std_base64 b" by simp_all
  show ?case
  proof (cases "c = 0x3D")
    case True
    with "2.prems" have "d = 0x3D" "sextet b mod 16 = 0" by simp_all
    then show ?thesis
      using ab True by (simp add: base64_dec_tail2 base64_enc_bytes_tail2)
  next
    case False
    with "2.prems" have c: "std_base64 c" by simp
    show ?thesis
    proof (cases "d = 0x3D")
      case True
      with "2.prems" False have "sextet c mod 4 = 0" by simp
      then show ?thesis
        using ab c True by (simp add: base64_dec_tail3 base64_enc_bytes_tail3)
    next
      case d: False
      with "2.prems" False have "std_base64 d" by simp
      then show ?thesis
        using ab c base64_enc_bytes_group(1) [of a b c d "[]"] base64_enc_bytes_group(2) [of a b c d]
        by (simp add: base64_dec_group base64_dec.simps(1) base64_bytes.simps(4) base64_enc.simps(1))
    qed
  qed
next
  case (3 a b c d e cs)
  then have s: "std_base64 a" "std_base64 b" "std_base64 c" "std_base64 d"
    and "canonical_units (e # cs)" by simp_all
  then have "base64_enc (base64_dec [] (e # cs)) = e # cs \<and>
      list_all (\<lambda>x. x < 256) (base64_dec [] (e # cs))"
    using "3.IH" by simp
  then show ?case
    using s by (simp add: base64_dec_group base64_enc_bytes_group)
qed simp_all

lemma std_base64_byte: "std_base64 c \<Longrightarrow> c < 256"
  unfolding std_base64_def by auto

lemma canonical_units_bytes: "canonical_units cs \<Longrightarrow> list_all (\<lambda>c. c < 256) cs"
proof (induction cs rule: canonical_units.induct)
  case (2 a b c d)
  then have "c = 0x3D \<or> std_base64 c" "d = 0x3D \<or> std_base64 d" "std_base64 a" "std_base64 b"
    by (auto split: if_splits)
  then show ?case by (auto dest: std_base64_byte)
next
  case (3 a b c d e cs)
  then show ?case by (simp add: std_base64_byte)
qed simp_all

lemma canonical_low_bytes:
  assumes "canonical_base64 s"
  shows "map (\<lambda>u. unat u mod 256) s = map unat s"
proof -
  have "list_all (\<lambda>c. c < 256) (map unat s)"
    using assms unfolding canonical_base64_def by (rule canonical_units_bytes)
  then show ?thesis by (simp add: list_all_iff)
qed

lemma toString_Buffer_from_base64:
  assumes "canonical_base64 s"
  shows "toString_base64 (Buffer_from_base64 s) = s"
proof -
  from assms have e: "base64_enc (base64_dec [] (map unat s)) = map unat s"
    and b: "list_all (\<lambda>x. x < 256) (base64_dec [] (map unat s))"
    unfolding canonical_base64_def using base64_dec_enc by blast+
  have "map unat (Buffer_from_base64 s) = base64_dec [] (map unat s)"
    unfolding Buffer_from_base64_def canonical_low_bytes [OF assms]
    using b by (rule map_unat_of_nat_bytes)
  then show ?thesis unfolding toString_base64_def by (simp only: e map_of_nat_unat)
qed

lemma roundtrip_data:
  "canonical_base64 s \<Longrightarrow> roundtrip S (JString s) (ascii ''data'')"
  by (simp add: roundtrip_def valueToBuffer_simps bufferToValue_simps toString_Buffer_from_base64)

subsection \<open>Round trip: all formats but \<^verbatim>\<open>uint64\<close>\<close>

text \<open>
  C2: for each of the formats \<^verbatim>\<open>bool\<close>, \<^verbatim>\<open>uint8\<close>, \<^verbatim>\<open>uint16\<close>, \<^verbatim>\<open>uint32\<close>,
  \<^verbatim>\<open>int\<close>, \<^verbatim>\<open>float\<close>, \<^verbatim>\<open>string\<close> and \<^verbatim>\<open>data\<close> and each value of its domain (a
  boolean; an integer of the format's range; a number that a finite single denotes; a
  well-formed string; a canonical base64 string), \<^verbatim>\<open>valueToBuffer\<close> yields a Buffer that
  \<^verbatim>\<open>bufferToValue\<close> decodes to the value.
\<close>

theorem codec_roundtrip:
  "roundtrip S (JBool b) (ascii ''bool'') \<and>
   (n8 < 2 ^ 8 \<longrightarrow> roundtrip S (JNumber (Finite (of_nat n8))) (ascii ''uint8'')) \<and>
   (n16 < 2 ^ 16 \<longrightarrow> roundtrip S (JNumber (Finite (of_nat n16))) (ascii ''uint16'')) \<and>
   (n32 < 2 ^ 32 \<longrightarrow> roundtrip S (JNumber (Finite (of_nat n32))) (ascii ''uint32'')) \<and>
   (- (2 ^ 31) \<le> i \<and> i < 2 ^ 31 \<longrightarrow> roundtrip S (JNumber (Finite (of_int i))) (ascii ''int'')) \<and>
   (f32_finite w \<longrightarrow> roundtrip S (JNumber (f32_value w)) (ascii ''float'')) \<and>
   (well_formed_utf16 s \<longrightarrow> roundtrip S (JString s) (ascii ''string'')) \<and>
   (canonical_base64 t \<longrightarrow> roundtrip S (JString t) (ascii ''data''))"
  using roundtrip_bool roundtrip_uint8 roundtrip_uint16 roundtrip_uint32 roundtrip_int
    roundtrip_float roundtrip_string roundtrip_data
  by blast

lemma roundtrip_witness_inputs:
  "f32_finite 0x3FC00000"
  "f32_value 0x3FC00000 = Finite (3 / 2)"
  "well_formed_utf16 [0x48, 0xE9, 0x20AC, 0xD83D, 0xDE00]"
  "canonical_base64 (ascii ''SGVsbG8='')"
  by (simp_all add: f32_finite_def f32_value_def well_formed_utf16_def high_surrogate_def
      low_surrogate_def canonical_base64_def ascii_def std_base64_def sextet_def unbase64_def)

theorem codec_roundtrip_witness:
  "roundtrip (\<lambda>s. NaN) (JBool True) (ascii ''bool'') \<and>
   roundtrip (\<lambda>s. NaN) (JNumber (Finite 200)) (ascii ''uint8'') \<and>
   roundtrip (\<lambda>s. NaN) (JNumber (Finite 3000)) (ascii ''uint16'') \<and>
   roundtrip (\<lambda>s. NaN) (JNumber (Finite 4000000000)) (ascii ''uint32'') \<and>
   roundtrip (\<lambda>s. NaN) (JNumber (Finite (- 5))) (ascii ''int'') \<and>
   f32_finite 0x3FC00000 \<and>
   roundtrip (\<lambda>s. NaN) (JNumber (Finite (3 / 2))) (ascii ''float'') \<and>
   well_formed_utf16 [0x48, 0xE9, 0x20AC, 0xD83D, 0xDE00] \<and>
   roundtrip (\<lambda>s. NaN) (JString [0x48, 0xE9, 0x20AC, 0xD83D, 0xDE00]) (ascii ''string'') \<and>
   canonical_base64 (ascii ''SGVsbG8='') \<and>
   roundtrip (\<lambda>s. NaN) (JString (ascii ''SGVsbG8='')) (ascii ''data'')"
  using codec_roundtrip [of "\<lambda>s. NaN" True 200 3000 4000000000 "- 5" "0x3FC00000"
      "[0x48, 0xE9, 0x20AC, 0xD83D, 0xDE00]" "ascii ''SGVsbG8=''"]
  by (simp add: roundtrip_witness_inputs)

subsection \<open>The format \<^verbatim>\<open>uint64\<close>\<close>

text \<open>
  What \<^verbatim>\<open>bufferToValue\<close> returns for \<^verbatim>\<open>uint64\<close> and a buffer of eight bytes or more: the
  low word when it is not zero, and otherwise the high word, read as a signed 32-bit
  integer.
\<close>

theorem bufferToValue_uint64_eq:
  assumes "8 \<le> length b"
  shows "bufferToValue b (ascii ''uint64'') =
     Inr (JNumber (Finite (of_int
       (if le_nat (take 4 b) \<noteq> 0 then int (le_nat (take 4 b))
        else to_int32 (int (le_nat (take 4 (drop 4 b))))))))"
proof -
  have lo: "readUInt32LE b 0 = Inr (Finite (of_nat (le_nat (take 4 b))))"
    and hi: "readUInt32LE b 4 = Inr (Finite (of_nat (le_nat (take 4 (drop 4 b)))))"
    using assms by (simp_all add: readUInt32LE_def read_le_def)
  have shl: "js_shl (Finite (of_nat n)) (Finite 32) = Finite (of_int (to_int32 (int n)))" for n
  proof -
    have "to_int32 (to_int32 (int n)) = to_int32 (int n)" by (simp add: to_int32_def)
    then show ?thesis by (simp add: js_shl_def ToInt32_def ToUint32_def)
  qed
  show ?thesis by (simp add: bufferToValue_simps lo hi shl)
qed

theorem bufferToValue_uint64_eq_witness:
  "bufferToValue [0, 0, 0, 0, 0, 0, 0, 0x80] (ascii ''uint64'') =
     Inr (JNumber (Finite (- 2147483648)))"
  using bufferToValue_uint64_eq [of "[0, 0, 0, 0, 0, 0, 0, 0x80]"]
  by (simp add: to_int32_def)

lemma to_int32_range: "- 2147483648 \<le> to_int32 x" "to_int32 x < 2147483648"
  by (simp_all add: to_int32_def)

lemma and_minus_1_int: "(x :: int) AND - 1 = x"
  by simp

text \<open>
  What \<^verbatim>\<open>valueToBuffer\<close> produces for \<^verbatim>\<open>uint64\<close> and an integer: the low 32 bits of
  the integer in bytes 0 to 3 and again in bytes 4 to 7 when bit 31 is clear, and a
  \<^verbatim>\<open>RangeError\<close> when bit 31 is set.
\<close>

theorem valueToBuffer_uint64_eq:
  "valueToBuffer S (JNumber (Finite (of_int v))) (ascii ''uint64'') =
     (if 0 \<le> to_int32 v
      then Inr (JBuffer (le_bytes 4 (to_int32 v) @ le_bytes 4 (to_int32 v)))
      else Inl RangeError)"
proof -
  have m1: "to_int32 4294967295 = - 1" by (simp add: to_int32_def)
  have a: "js_and (Finite (of_int v)) (Finite 0xFFFFFFFF) = Finite (of_int (to_int32 v))"
    by (simp add: js_and_def ToInt32_def m1)
  have s: "js_sar (Finite (of_int v)) (Finite 32) = Finite (of_int (to_int32 v))"
    by (simp add: js_sar_def ToInt32_def ToUint32_def)
  have r: "\<not> 4294967295 < to_int32 v"
    using to_int32_range(2) [of v] by simp
  have w1: "store (Buffer_alloc 8) 0 (le_bytes 4 x) = Inr (le_bytes 4 x @ [0, 0, 0, 0])" for x
    by (simp add: store_def Buffer_alloc_def eval_nat_numeral)
  have w2: "store (le_bytes 4 x @ [0, 0, 0, 0]) 4 (le_bytes 4 y) = Inr (le_bytes 4 x @ le_bytes 4 y)" for x y
    by (simp add: store_def)
  show ?thesis
    by (simp add: valueToBuffer_simps a s writeUInt32LE_def write_le_def r w1 w2 not_le)
qed

section \<open>Idempotence of \<^verbatim>\<open>uuidToNobleUuid\<close>\<close>

text \<open>
  On a string without unpaired surrogates the code points that \<^verbatim>\<open>toLowerCase\<close> reads are
  the scalar values that the string encodes, and the UTF-16 form of scalar values is read
  back as these scalar values.
\<close>

lemma code_points_well_formed:
  "well_formed_units us \<Longrightarrow> list_all (\<lambda>u. u < 65536) us \<Longrightarrow> code_points us = utf16_dec us"
proof (induction us rule: utf16_dec.induct)
  case 1
  show ?case by simp
next
  case (2 c)
  then show ?case by simp
next
  case (3 c d us)
  show ?case
  proof (cases "high_surrogate c")
    case True
    with "3.prems" have "low_surrogate d" "well_formed_units us" "list_all (\<lambda>u. u < 65536) us"
      by simp_all
    then show ?thesis using True "3.IH"(1) by simp
  next
    case False
    with "3.prems" have "\<not> low_surrogate c" "well_formed_units (d # us)"
      "list_all (\<lambda>u. u < 65536) (d # us)" by simp_all
    then show ?thesis using False "3.IH"(4) by simp
  qed
qed

lemma utf16_enc_cp_cases:
  assumes "scalar_value c"
  obtains (bmp) "utf16_enc_cp c = [c]" and "c < 65536" and "\<not> high_surrogate c"
      and "\<not> low_surrogate c"
    | (pair) h l where "utf16_enc_cp c = [h, l]" and "high_surrogate h" and "low_surrogate l"
      and "0x10000 + (h - 0xD800) * 1024 + (l - 0xDC00) = c" and "c \<noteq> 45"
proof (cases "c < 0x10000")
  case True
  then show ?thesis using assms bmp by (simp add: utf16_enc_cp_def scalar_value_def)
next
  case False
  have lt: "c < 0x110000" using assms by (simp add: scalar_value_def)
  define k where "k = c - 0x10000"
  have k: "k < 1048576" "c = 0x10000 + k" using False lt by (simp_all add: k_def)
  define h where "h = 0xD800 + k div 1024"
  define l where "l = 0xDC00 + k mod 1024"
  have enc: "utf16_enc_cp c = [h, l]"
    using False by (simp add: utf16_enc_cp_def h_def l_def k_def)
  have "k div 1024 < 1024" using k(1) by simp
  then have h: "high_surrogate h" by (simp add: h_def high_surrogate_def)
  have "k mod 1024 < 1024" by simp
  then have l: "low_surrogate l" by (simp add: l_def low_surrogate_def)
  have cp: "0x10000 + (h - 0xD800) * 1024 + (l - 0xDC00) = c"
    unfolding h_def l_def k(2) by simp
  show ?thesis using enc h l cp False by (intro pair) simp_all
qed

lemma utf16_enc_cp_units:
  assumes "scalar_value c"
  shows "list_all (\<lambda>u. u < 65536) (utf16_enc_cp c)"
    and "filter (\<lambda>u. u \<noteq> 45) (utf16_enc_cp c) = (if c = 45 then [] else utf16_enc_cp c)"
    and "code_points (utf16_enc_cp c @ us) = c # code_points us"
proof -
  show "list_all (\<lambda>u. u < 65536) (utf16_enc_cp c)"
    using assms by (cases rule: utf16_enc_cp_cases)
      (simp_all add: high_surrogate_def low_surrogate_def)
  show "filter (\<lambda>u. u \<noteq> 45) (utf16_enc_cp c) = (if c = 45 then [] else utf16_enc_cp c)"
    using assms by (cases rule: utf16_enc_cp_cases)
      (auto simp: high_surrogate_def low_surrogate_def)
  show "code_points (utf16_enc_cp c @ us) = c # code_points us"
    using assms
  proof (cases rule: utf16_enc_cp_cases)
    case bmp
    then show ?thesis by (cases us) simp_all
  next
    case (pair h l)
    then show ?thesis by simp
  qed
qed

lemma units_of_scalars:
  "list_all scalar_value cs \<Longrightarrow>
   list_all (\<lambda>u. u < 65536) (concat (map utf16_enc_cp cs)) \<and>
   code_points (concat (map utf16_enc_cp cs)) = cs \<and>
   filter (\<lambda>u. u \<noteq> 45) (concat (map utf16_enc_cp cs)) =
     concat (map utf16_enc_cp (filter (\<lambda>c. c \<noteq> 45) cs))"
  by (induction cs) (simp_all add: utf16_enc_cp_units)

lemma lower_cps_scalar:
  assumes "lowercase_table tbl"
  shows "list_all scalar_value cs \<Longrightarrow> list_all scalar_value (lower_cps tbl pre cs)"
proof (induction cs arbitrary: pre)
  case Nil
  show ?case by simp
next
  case (Cons c cs)
  then have "scalar_value c" by simp
  then have "list_all scalar_value (tbl pre c cs)"
    using assms unfolding lowercase_table_def list_all_iff by blast
  then show ?case using Cons by simp
qed

lemma lower_cps_outputs:
  "d \<in> set (lower_cps tbl pre cs) \<Longrightarrow> \<exists>p c q. d \<in> set (tbl p c q)"
  by (induction cs arbitrary: pre) auto

lemma lower_cps_stable:
  "(\<And>d p q. d \<in> set cs \<Longrightarrow> tbl p d q = [d]) \<Longrightarrow> lower_cps tbl pre cs = cs"
  by (induction cs arbitrary: pre) simp_all

lemma of_nat_unit_eq_dash: "x < 65536 \<Longrightarrow> (of_nat x = dash) = (x = 45)"
proof -
  assume x: "x < 65536"
  have u: "unat (of_nat x :: code_unit) = x" using x by (simp add: unat_of_nat)
  have "x = 45" if "(of_nat x :: code_unit) = 45"
  proof -
    have "unat (of_nat x :: code_unit) = unat (45 :: code_unit)" using that by simp
    then show ?thesis using u by simp
  qed
  then show ?thesis by (auto simp: dash_def)
qed

lemma filter_dash_units:
  "list_all (\<lambda>u. u < 65536) xs \<Longrightarrow>
   filter (\<lambda>c. c \<noteq> dash) (map of_nat xs) = map of_nat (filter (\<lambda>x. x \<noteq> 45) xs)"
  by (induction xs) (simp_all add: of_nat_unit_eq_dash)

lemma map_unat_of_nat_units:
  "list_all (\<lambda>u. u < 65536) xs \<Longrightarrow> map unat (map of_nat xs :: code_unit list) = xs"
  by (induction xs) (simp_all add: unat_of_nat)

lemma uuidToNobleUuid_code_points:
  assumes "lowercase_table tbl" and "well_formed_utf16 s"
  defines "out \<equiv> filter (\<lambda>c. c \<noteq> 45) (lower_cps tbl [] (code_points (map unat s)))"
  shows "uuidToNobleUuid (js_toLowerCase tbl) s = map of_nat (concat (map utf16_enc_cp out))"
    and "list_all scalar_value out"
    and "\<And>d p q. d \<in> set out \<Longrightarrow> tbl p d q = [d]"
proof -
  have units: "list_all (\<lambda>u. u < 65536) (map unat s)"
  proof -
    have "unat u < 65536" for u :: code_unit
      using unsigned_less [of u, where 'a = nat] by simp
    then show ?thesis by (simp add: list_all_iff)
  qed
  have wf: "well_formed_units (map unat s)" using assms(2) by (simp add: well_formed_utf16_def)
  have "list_all scalar_value (code_points (map unat s))"
    using utf16_dec_enc [OF wf units] code_points_well_formed [OF wf units] by simp
  then have sc: "list_all scalar_value (lower_cps tbl [] (code_points (map unat s)))"
    by (rule lower_cps_scalar [OF assms(1)])
  then show "list_all scalar_value out" by (simp add: out_def list_all_iff)
  show "uuidToNobleUuid (js_toLowerCase tbl) s = map of_nat (concat (map utf16_enc_cp out))"
    using units_of_scalars [OF sc]
    by (simp add: uuidToNobleUuid_def js_toLowerCase_def filter_dash_units out_def)
  show "tbl p d q = [d]" if "d \<in> set out" for d p q
  proof -
    from that have "d \<in> set (lower_cps tbl [] (code_points (map unat s)))" by (simp add: out_def)
    then obtain p' c q' where "d \<in> set (tbl p' c q')" using lower_cps_outputs by blast
    then show ?thesis using assms(1) unfolding lowercase_table_def by blast
  qed
qed

lemma compact_form_pass: "compact_form lower t \<Longrightarrow> uuidToNobleUuid lower t = t"
  by (auto simp: compact_form_def uuidToNobleUuid_def filter_id_conv)

text \<open>
  The sample table has the two facts of Unicode's table, and every lowercase mapping of it
  is a single code point.
\<close>

lemma lowercase_table_sample: "lowercase_table lower_sample"
  unfolding lowercase_table_def lower_sample_def scalar_value_def high_surrogate_def
    low_surrogate_def
  by (auto split: if_splits)

lemma single_lowercase_sample: "single_lowercase lower_sample s"
  by (simp add: single_lowercase_def lower_sample_def)

lemma sample_uuid:
  "uuidToNobleUuid (js_toLowerCase lower_sample) (ascii ''0000180D-0000-1000-8000-00805F9B34FB'') =
     ascii ''0000180d00001000800000805f9b34fb''"
  "well_formed_utf16 (ascii ''0000180D-0000-1000-8000-00805F9B34FB'')"
  by (simp_all add: uuidToNobleUuid_def js_toLowerCase_def lower_sample_def utf16_enc_cp_def
      high_surrogate_def low_surrogate_def well_formed_utf16_def ascii_def dash_def)

text \<open>
  C10, as amended: on every string that has no unpaired surrogate, \<^verbatim>\<open>uuidToNobleUuid\<close> is
  idempotent, its result is in noble's form (no dash, its own lowercase), and every string
  in noble's form, with or without unpaired surrogates, passes through unchanged. The
  lowercase mappings need not be single code points; what is used of Unicode's table is
  \<open>lowercase_table\<close>.
\<close>

theorem uuidToNobleUuid_idempotent_well_formed:
  assumes "lowercase_table tbl" and "well_formed_utf16 s"
  shows "uuidToNobleUuid (js_toLowerCase tbl) (uuidToNobleUuid (js_toLowerCase tbl) s) =
           uuidToNobleUuid (js_toLowerCase tbl) s \<and>
         compact_form (js_toLowerCase tbl) (uuidToNobleUuid (js_toLowerCase tbl) s) \<and>
         (\<forall>t. compact_form (js_toLowerCase tbl) t \<longrightarrow> uuidToNobleUuid (js_toLowerCase tbl) t = t)"
proof -
  define out where "out = filter (\<lambda>c. c \<noteq> 45) (lower_cps tbl [] (code_points (map unat s)))"
  note u = uuidToNobleUuid_code_points [OF assms(1,2), folded out_def]
  note sc = units_of_scalars [OF u(2)]
  have "map unat (map of_nat (concat (map utf16_enc_cp out)) :: code_unit list) =
      concat (map utf16_enc_cp out)"
    using sc by (intro map_unat_of_nat_units) blast
  then have "code_points (map unat (uuidToNobleUuid (js_toLowerCase tbl) s)) = out"
    unfolding u(1) using sc by presburger
  moreover have "lower_cps tbl [] out = out" using u(3) by (rule lower_cps_stable)
  ultimately have low: "js_toLowerCase tbl (uuidToNobleUuid (js_toLowerCase tbl) s) =
      uuidToNobleUuid (js_toLowerCase tbl) s"
    by (simp add: js_toLowerCase_def u(1))
  have nd: "dash \<notin> set (uuidToNobleUuid (js_toLowerCase tbl) s)"
    by (simp add: uuidToNobleUuid_def)
  from low nd have c: "compact_form (js_toLowerCase tbl) (uuidToNobleUuid (js_toLowerCase tbl) s)"
    by (simp add: compact_form_def)
  then show ?thesis using compact_form_pass by blast
qed

theorem uuidToNobleUuid_idempotent_well_formed_witness:
  "lowercase_table lower_sample \<and>
   well_formed_utf16 (ascii ''0000180D-0000-1000-8000-00805F9B34FB'') \<and>
   uuidToNobleUuid (js_toLowerCase lower_sample) (ascii ''0000180D-0000-1000-8000-00805F9B34FB'') =
     ascii ''0000180d00001000800000805f9b34fb'' \<and>
   uuidToNobleUuid (js_toLowerCase lower_sample)
     (uuidToNobleUuid (js_toLowerCase lower_sample) (ascii ''0000180D-0000-1000-8000-00805F9B34FB'')) =
     uuidToNobleUuid (js_toLowerCase lower_sample) (ascii ''0000180D-0000-1000-8000-00805F9B34FB'') \<and>
   compact_form (js_toLowerCase lower_sample) (ascii ''0000180d00001000800000805f9b34fb'') \<and>
   uuidToNobleUuid (js_toLowerCase lower_sample) (ascii ''0000180d00001000800000805f9b34fb'') =
     ascii ''0000180d00001000800000805f9b34fb''"
  using uuidToNobleUuid_idempotent_well_formed [OF lowercase_table_sample sample_uuid(2)]
  by (simp add: sample_uuid lowercase_table_sample)

text \<open>
  C10, as stated, fails on a string with unpaired surrogates, also when every lowercase
  mapping is a single code point: \<^verbatim>\<open>toLowerCase\<close> leaves the unpaired surrogates U+D801
  and U+DC00 as they are, removing the dash between them makes them the pair that encodes
  U+10400, and the second call lowercases U+10400 to U+10428, the pair U+D801 U+DC28.
\<close>

theorem uuidToNobleUuid_unpaired_surrogates_counterexample:
  "lowercase_table lower_sample \<and>
   single_lowercase lower_sample [0xD801, 0x2D, 0xDC00] \<and>
   uuidToNobleUuid (js_toLowerCase lower_sample) [0xD801, 0x2D, 0xDC00] = [0xD801, 0xDC00] \<and>
   uuidToNobleUuid (js_toLowerCase lower_sample)
     (uuidToNobleUuid (js_toLowerCase lower_sample) [0xD801, 0x2D, 0xDC00]) = [0xD801, 0xDC28]"
  by (simp add: lowercase_table_sample single_lowercase_sample uuidToNobleUuid_def
      js_toLowerCase_def lower_sample_def utf16_enc_cp_def high_surrogate_def low_surrogate_def
      dash_def)
end
